theory Spec2Isabelle
  imports Complex_Main "HOL-Library.Log_Nat"
begin

unbundle bit_operations_syntax

section \<open>Machine integers of the C source\<close>

text \<open>
  The C integers are modelled as mathematical integers with every conversion and
  wrap-around written out: \<open>s32\<close> and \<open>s64\<close> reduce a value to the two's-complement
  range of \<open>int\<close>/\<open>int32_t\<close> and \<open>int64_t\<close>, \<open>u32\<close> and \<open>u64\<close> to the range of
  \<open>uint32_t\<close> and \<open>uint64_t\<close>.
\<close>

definition s32 :: "int \<Rightarrow> int" where
  "s32 x = (x + 2 ^ 31) mod 2 ^ 32 - 2 ^ 31"

definition s64 :: "int \<Rightarrow> int" where
  "s64 x = (x + 2 ^ 63) mod 2 ^ 64 - 2 ^ 63"

definition u32 :: "int \<Rightarrow> int" where
  "u32 x = x mod 2 ^ 32"

definition u64 :: "int \<Rightarrow> int" where
  "u64 x = x mod 2 ^ 64"

text \<open>\<open>abs\<close> of \<open>stdlib.h\<close> on \<open>int\<close>; at \<open>INT_MIN\<close> the two's-complement result.\<close>

definition c_abs :: "int \<Rightarrow> int" where
  "c_abs x = s32 \<bar>x\<bar>"

text \<open>C's integer division truncates towards zero.\<close>

definition c_div :: "int \<Rightarrow> int \<Rightarrow> int" where
  "c_div a b = sgn a * sgn b * (\<bar>a\<bar> div \<bar>b\<bar>)"

text \<open>The range of an \<open>int\<close> on which \<open>abs\<close> is defined (everything but \<open>INT_MIN\<close>).\<close>

definition int_abs_ok :: "int \<Rightarrow> bool" where
  "int_abs_ok x \<longleftrightarrow> - (2 ^ 31) < x \<and> x < 2 ^ 31"

section \<open>Constants of motor-operations.c\<close>

definition LOOPS_PER_STEP :: int where
  "LOOPS_PER_STEP = push_bit (1::nat) 1"

definition MAX_STEPS_PER_SEGMENT :: int where
  "MAX_STEPS_PER_SEGMENT = 65535 div LOOPS_PER_STEP"

section \<open>Floating point\<close>

text \<open>
  The source computes speeds and delays in \<open>float\<close> and \<open>double\<close>. The functions of
  the model take the floating-point unit as an argument: every operation the source
  uses is a field of the record \<open>fpu\<close>, over one carrier \<open>'f\<close> of floating-point
  values (a \<open>float\<close> converts to \<open>double\<close> without change, \<open>d_to_f\<close> is the
  narrowing conversion back). Fields \<open>f_\<close> are the single-precision operations,
  fields \<open>d_\<close> the double-precision ones; the comparisons are the same for both.
  Binary floating point is the instance \<open>ieee_fpu\<close> below.
\<close>

record 'f fpu =
  f_of_int :: "int \<Rightarrow> 'f"
  f_lit :: "rat \<Rightarrow> 'f"
  f_lt :: "'f \<Rightarrow> 'f \<Rightarrow> bool"
  f_eq :: "'f \<Rightarrow> 'f \<Rightarrow> bool"
  f_sub :: "'f \<Rightarrow> 'f \<Rightarrow> 'f"
  f_mul :: "'f \<Rightarrow> 'f \<Rightarrow> 'f"
  f_div :: "'f \<Rightarrow> 'f \<Rightarrow> 'f"
  f_sqrt :: "'f \<Rightarrow> 'f"
  f_round :: "'f \<Rightarrow> 'f"
  f_to_int :: "'f \<Rightarrow> int"
  d_of_int :: "int \<Rightarrow> 'f"
  d_lit :: "rat \<Rightarrow> 'f"
  d_add :: "'f \<Rightarrow> 'f \<Rightarrow> 'f"
  d_sub :: "'f \<Rightarrow> 'f \<Rightarrow> 'f"
  d_mul :: "'f \<Rightarrow> 'f \<Rightarrow> 'f"
  d_div :: "'f \<Rightarrow> 'f \<Rightarrow> 'f"
  d_sqrt :: "'f \<Rightarrow> 'f"
  d_to_f :: "'f \<Rightarrow> 'f"

text \<open>
  The two macros of motor-interface-constants.h that the source uses; the header is not
  part of the sources, so their values are parameters.
\<close>

record 'f constants =
  TIMER_FREQUENCY :: 'f
  DELAY_CYCLE_SHIFT :: nat

definition sq :: "'f fpu \<Rightarrow> 'f \<Rightarrow> 'f" where
  "sq fp x = f_mul fp x x"

definition sqd :: "'f fpu \<Rightarrow> 'f \<Rightarrow> 'f" where
  "sqd fp x = d_mul fp x x"

definition round2int :: "'f fpu \<Rightarrow> 'f \<Rightarrow> int" where
  "round2int fp x = f_to_int fp (f_round fp x)"

text \<open>
  \<open>hardware_frequency_limit_\<close> is a static variable that \<open>beagleg_init_motor_ops\<close>
  sets; the functions that read it take it as the argument \<open>limit\<close>.
\<close>

definition beagleg_init_motor_ops :: "'f fpu \<Rightarrow> 'f" where
  "beagleg_init_motor_ops fp = f_lit fp 1000000"

definition clip_hardware_frequency_limit :: "'f fpu \<Rightarrow> 'f \<Rightarrow> 'f \<Rightarrow> 'f" where
  "clip_hardware_frequency_limit fp limit v = (if f_lt fp v limit then v else limit)"

definition calcAccelerationCurveValueAt ::
  "'f fpu \<Rightarrow> 'f constants \<Rightarrow> int \<Rightarrow> 'f \<Rightarrow> 'f" where
  "calcAccelerationCurveValueAt fp hw index acceleration =
     (let accel_factor =
            f_div fp
              (f_mul fp (TIMER_FREQUENCY hw)
                 (f_sqrt fp
                    (f_div fp (f_mul fp (f_of_int fp LOOPS_PER_STEP) (f_lit fp 2))
                       acceleration)))
              (f_of_int fp LOOPS_PER_STEP);
          c0 = (if index = 0 then f_mul fp accel_factor (f_lit fp (67605 / 100000))
                else accel_factor)
      in f_mul fp c0
           (f_sub fp (f_sqrt fp (f_of_int fp (s32 (index + 1))))
              (f_sqrt fp (f_of_int fp index))))"

section \<open>Data model\<close>

text \<open>
  \<open>struct MotorMovement\<close> (motor-operations.h) and \<open>struct MotionSegment\<close>
  (motion-queue.h). A field that the code reads without ever having written it holds an
  indeterminate value, modelled as \<open>None\<close>: \<open>aux_bits\<close> of a local movement,
  \<open>accel_series_index\<close> and \<open>hires_accel_cycles\<close> of a travel segment. The step
  array has one entry per motor; its length stands for \<open>BEAGLEG_NUM_MOTORS\<close> and
  \<open>MOTION_MOTOR_COUNT\<close>.
\<close>

record 'f MotorMovement =
  v0 :: 'f
  v1 :: 'f
  aux_bits :: "nat option"
  steps :: "int list"

datatype segment_state = STATE_EMPTY | STATE_FILLED

text \<open>
  Modelled from the spec: the declaration of \<open>struct MotionSegment\<close> is not among the
  sources. The data model of the specification gives \<open>fractions\<close> as 32-bit unsigned
  values and \<open>direction_bits\<close> as a bit set with one bit per axis; the loop counts
  hold the \<open>int\<close> that the code assigns.
\<close>

record MotionSegment =
  direction_bits :: nat
  fractions :: "int list"
  loops_accel :: int
  loops_travel :: int
  loops_decel :: int
  travel_delay_cycles :: int
  accel_series_index :: "int option"
  hires_accel_cycles :: "int option"
  aux :: "nat option"
  state :: segment_state

text \<open>
  What the functions act on: the motion queue behind \<open>backend->enqueue\<close>, in order of
  arrival; the lines written to a stream; and, as a record of the calls made, the
  arguments of every call of \<open>beagleg_enqueue_internal\<close>.
\<close>

datatype sink = Stream nat | Stderr

record 'f world =
  queue :: "MotionSegment list"
  written :: "(sink \<times> string) list"
  synth_calls :: "('f MotorMovement \<times> int) list"

definition world0 :: "'f world" where
  "world0 = \<lparr>queue = [], written = [], synth_calls = []\<rparr>"

section \<open>The segment synthesizer: \<open>beagleg_enqueue_internal\<close>\<close>

text \<open>
  The loop over the axes computes in \<open>uint64_t\<close>: \<open>max_fraction\<close> is
  \<open>0xFFFFFFFF / LOOPS_PER_STEP\<close>, \<open>delta\<close> is \<open>abs(steps[i])\<close> converted, and
  the \<open>int\<close> divisor is converted as well. The quotient is stored in the 32-bit
  \<open>fractions[i]\<close>.
\<close>

definition max_fraction :: int where
  "max_fraction = u64 (4294967295 div LOOPS_PER_STEP)"

definition axis_fraction :: "int \<Rightarrow> int \<Rightarrow> int" where
  "axis_fraction s defining_axis_steps =
     (let delta = u64 (c_abs s)
      in u32 (u64 (delta * max_fraction) div u64 defining_axis_steps))"

definition axis_step :: "int list \<Rightarrow> int \<Rightarrow> nat \<Rightarrow> nat \<times> int list \<Rightarrow> nat \<times> int list" where
  "axis_step st defining_axis_steps i =
     (\<lambda>(bits, fr).
        (if st ! i < 0 then bits OR push_bit i 1 else bits,
         fr @ [axis_fraction (st ! i) defining_axis_steps]))"

definition axis_loop :: "int list \<Rightarrow> int \<Rightarrow> nat \<times> int list" where
  "axis_loop st defining_axis_steps =
     fold (axis_step st defining_axis_steps) [0..<length st] (0, [])"

text \<open>The divisor \<open>LOOPS_PER_STEP * travel_speed\<close> of the travel branch.\<close>

definition travel_divisor :: "'f fpu \<Rightarrow> 'f \<Rightarrow> 'f \<Rightarrow> 'f" where
  "travel_divisor fp limit v =
     f_mul fp (f_of_int fp LOOPS_PER_STEP) (clip_hardware_frequency_limit fp limit v)"

text \<open>
  The body of \<open>beagleg_enqueue_internal\<close> up to the call of \<open>backend->enqueue\<close>:
  the value of the local \<open>new_element\<close> that is handed to the queue. The element
  starts with its fields unwritten; every branch writes the three loop counts and
  \<open>travel_delay_cycles\<close>, only the two ramp branches write \<open>accel_series_index\<close>
  and \<open>hires_accel_cycles\<close>.
\<close>

definition new_element ::
  "'f fpu \<Rightarrow> 'f constants \<Rightarrow> 'f \<Rightarrow> 'f MotorMovement \<Rightarrow> int \<Rightarrow> MotionSegment" where
  "new_element fp hw limit param defining_axis_steps =
     (let (bits, fr) = axis_loop (steps param) defining_axis_steps;
          total_loops = s32 (LOOPS_PER_STEP * defining_axis_steps);
          el = \<lparr>direction_bits = bits, fractions = fr,
                loops_accel = 0, loops_travel = 0, loops_decel = 0,
                travel_delay_cycles = 0,
                accel_series_index = None, hires_accel_cycles = None,
                aux = aux_bits param, state = STATE_FILLED\<rparr>
      in if f_eq fp (v0 param) (v1 param) then
           el\<lparr>loops_accel := 0, loops_decel := 0,
              loops_travel := total_loops,
              travel_delay_cycles :=
                round2int fp (f_div fp (TIMER_FREQUENCY hw)
                                (travel_divisor fp limit (v0 param)))\<rparr>
         else if f_lt fp (v0 param) (v1 param) then
           (let acceleration =
                  f_div fp (f_sub fp (sq fp (v1 param)) (sq fp (v0 param)))
                    (f_mul fp (f_lit fp 2) (f_of_int fp defining_axis_steps));
                accel_loops_from_zero =
                  round2int fp
                    (f_mul fp (f_of_int fp LOOPS_PER_STEP)
                       (f_div fp (sq fp (f_sub fp (v0 param) (f_of_int fp 0)))
                          (f_mul fp (f_lit fp 2) acceleration)))
            in el\<lparr>loops_travel := 0, loops_decel := 0, travel_delay_cycles := 0,
                  loops_accel := total_loops,
                  accel_series_index := Some accel_loops_from_zero,
                  hires_accel_cycles :=
                    Some (round2int fp
                            (f_mul fp (f_of_int fp (push_bit (DELAY_CYCLE_SHIFT hw) 1))
                               (calcAccelerationCurveValueAt fp hw accel_loops_from_zero
                                  acceleration)))\<rparr>)
         else
           (let acceleration =
                  f_div fp (f_sub fp (sq fp (v0 param)) (sq fp (v1 param)))
                    (f_mul fp (f_lit fp 2) (f_of_int fp defining_axis_steps));
                accel_loops_from_zero =
                  round2int fp
                    (f_mul fp (f_of_int fp LOOPS_PER_STEP)
                       (f_div fp (sq fp (f_sub fp (v0 param) (f_of_int fp 0)))
                          (f_mul fp (f_lit fp 2) acceleration)))
            in el\<lparr>loops_travel := 0, loops_accel := 0, travel_delay_cycles := 0,
                  loops_decel := total_loops,
                  accel_series_index := Some accel_loops_from_zero,
                  hires_accel_cycles :=
                    Some (round2int fp
                            (f_mul fp (f_of_int fp (push_bit (DELAY_CYCLE_SHIFT hw) 1))
                               (calcAccelerationCurveValueAt fp hw accel_loops_from_zero
                                  acceleration)))\<rparr>))"

definition beagleg_enqueue_internal ::
  "'f fpu \<Rightarrow> 'f constants \<Rightarrow> 'f \<Rightarrow> 'f world \<Rightarrow> 'f MotorMovement \<Rightarrow> int \<Rightarrow> 'f world" where
  "beagleg_enqueue_internal fp hw limit w param defining_axis_steps =
     w\<lparr>queue := queue w @ [new_element fp hw limit param defining_axis_steps],
       synth_calls := synth_calls w @ [(param, defining_axis_steps)]\<rparr>"

section \<open>The entry point: \<open>beagleg_enqueue\<close>\<close>

text \<open>
  \<open>get_defining_axis_steps\<close> reads \<open>steps[0]\<close> and then runs over the axes
  \<open>1, \<dots>, BEAGLEG_NUM_MOTORS - 1\<close>.
\<close>

definition get_defining_axis_steps :: "int list \<Rightarrow> int" where
  "get_defining_axis_steps st =
     fold (\<lambda>i defining_axis_steps.
             if c_abs (st ! i) > defining_axis_steps then c_abs (st ! i)
             else defining_axis_steps)
          [1..<length st] (c_abs (st ! 0))"

text \<open>
  The locals of the splitting loop that live across iterations: the 64-bit fixed-point
  accumulators, \<open>previous.steps\<close> and \<open>previous_speed\<close>. Of the structs
  \<open>previous\<close> and \<open>accumulator\<close> only the step arrays are ever read.
\<close>

record 'f split_state =
  hires_step_accumulator :: "int list"
  previous :: "int list"
  previous_speed :: 'f
  wld :: "'f world"

text \<open>
  One iteration of the loop over the divisions. The inner loop over the axes works on
  each axis by itself. \<open>>> 32\<close> on a negative 64-bit value is the arithmetic shift
  (division by \<open>2^32\<close> rounded down), and the result is converted to \<open>int\<close>. The
  local \<open>output\<close> is declared without initialiser; the loop writes its \<open>steps\<close>,
  \<open>v0\<close> and \<open>v1\<close>, and nothing writes its \<open>aux_bits\<close>.
\<close>

definition division ::
  "'f fpu \<Rightarrow> 'f constants \<Rightarrow> 'f \<Rightarrow> 'f \<Rightarrow> int list \<Rightarrow> 'f split_state \<Rightarrow> 'f split_state" where
  "division fp hw limit a hires_steps_per_div st =
     (let acc = map2 (\<lambda>x h. s64 (x + h)) (hires_step_accumulator st) hires_steps_per_div;
          accumulator = map (\<lambda>x. s32 (x div 2 ^ 32)) acc;
          output_steps = map2 (\<lambda>x y. s32 (x - y)) accumulator (previous st);
          division_steps = get_defining_axis_steps output_steps;
          v0squared = sqd fp (previous_speed st);
          v1squared = d_add fp v0squared
                        (d_mul fp (d_mul fp (d_lit fp 2) a) (d_of_int fp division_steps));
          v1' = (if f_lt fp (d_lit fp 0) v1squared then d_sqrt fp v1squared
                 else d_of_int fp 0);
          output = \<lparr>v0 = d_to_f fp (previous_speed st), v1 = d_to_f fp v1',
                    aux_bits = None, steps = output_steps\<rparr>
      in \<lparr>hires_step_accumulator = acc, previous = accumulator, previous_speed = v1',
          wld = beagleg_enqueue_internal fp hw limit (wld st) output division_steps\<rparr>)"

fun split_loop :: "nat \<Rightarrow> ('s \<Rightarrow> 's) \<Rightarrow> 's \<Rightarrow> 's" where
  "split_loop 0 body st = st"
| "split_loop (Suc n) body st = split_loop n body (body st)"

definition beagleg_enqueue ::
  "'f fpu \<Rightarrow> 'f constants \<Rightarrow> 'f \<Rightarrow> 'f world \<Rightarrow> 'f MotorMovement \<Rightarrow> nat option
     \<Rightarrow> int \<times> 'f world" where
  "beagleg_enqueue fp hw limit w param err_stream =
     (let defining_axis_steps = get_defining_axis_steps (steps param)
      in if defining_axis_steps = 0 then
           (1, w\<lparr>written := written w @
                   [(case err_stream of Some s \<Rightarrow> Stream s | None \<Rightarrow> Stderr,
                     ''zero steps. Ignoring command.'' @ [CHR 0x0A])]\<rparr>)
         else if defining_axis_steps > MAX_STEPS_PER_SEGMENT then
           (let a = d_div fp (d_sub fp (sqd fp (v1 param)) (sqd fp (v0 param)))
                      (d_mul fp (d_lit fp 2) (d_of_int fp defining_axis_steps));
                divisions = s32 (c_div defining_axis_steps MAX_STEPS_PER_SEGMENT + 1);
                hires_steps_per_div =
                  map (\<lambda>s. s64 (c_div (s64 (s * 2 ^ 32)) divisions + 1)) (steps param);
                st0 = \<lparr>hires_step_accumulator = replicate (length (steps param)) 0,
                       previous = replicate (length (steps param)) 0,
                       previous_speed = v0 param, wld = w\<rparr>
            in (0, wld (split_loop (nat divisions)
                          (division fp hw limit a hires_steps_per_div) st0)))
         else (0, beagleg_enqueue_internal fp hw limit w param defining_axis_steps))"

text \<open>
  Exact real arithmetic as one floating-point unit, for evaluating the model on
  concrete requests. It is not the arithmetic of the hardware; it agrees with binary
  floating point on the operations that are exact there, such as comparisons and
  products and quotients of small integers.
\<close>

definition exact_fpu :: "real fpu" where
  "exact_fpu =
     \<lparr>f_of_int = of_int, f_lit = of_rat, f_lt = (<), f_eq = (=),
      f_sub = (-), f_mul = (*), f_div = (/), f_sqrt = sqrt,
      f_round = (\<lambda>x. sgn x * of_int \<lfloor>\<bar>x\<bar> + 1 / 2\<rfloor>),
      f_to_int = (\<lambda>x. sgn \<lfloor>x\<rfloor> * \<lfloor>\<bar>x\<bar>\<rfloor>),
      d_of_int = of_int, d_lit = of_rat, d_add = (+), d_sub = (-), d_mul = (*),
      d_div = (/), d_sqrt = sqrt, d_to_f = (\<lambda>x. x)\<rparr>"

definition hw200 :: "real constants" where
  "hw200 = \<lparr>TIMER_FREQUENCY = 200000000, DELAY_CYCLE_SHIFT = 5\<rparr>"

section \<open>Binary floating point\<close>

text \<open>
  The floating-point unit of the hardware, interpreted: binary floating point with
  rounding to nearest, ties to even, with a significand of 24 bits for \<open>float\<close> and of
  53 bits for \<open>double\<close>. A value is the rational number it denotes. The exponent
  range is not bounded, and infinities and NaN are not values: the instance is the
  arithmetic of the hardware wherever the operands and results are finite and within
  the normal range of the format and nothing is divided by zero.

  \<open>binade x\<close> is the exponent \<open>e\<close> with \<open>2^e \<le> |x| < 2^(e+1)\<close>, \<open>round_even\<close>
  rounds to the nearest integer, a tie to the even one, and \<open>float_round p\<close> rounds to
  the nearest number with a significand of \<open>p\<close> bits. \<open>floor_sqrt\<close> is the integer
  square root, found bit by bit, and \<open>sqrt_round p\<close> is the square root rounded to
  \<open>p\<close> bits.
\<close>

definition binade :: "rat \<Rightarrow> int" where
  "binade x =
     (if 1 \<le> \<bar>x\<bar> then bitlen \<lfloor>\<bar>x\<bar>\<rfloor> - 1 else - bitlen (\<lceil>1 / \<bar>x\<bar>\<rceil> - 1))"

definition round_even :: "rat \<Rightarrow> int" where
  "round_even y =
     (let n = \<lfloor>y\<rfloor>; r = y - of_int n
      in if r < 1 / 2 then n else if 1 / 2 < r then n + 1
         else if even n then n else n + 1)"

definition float_round :: "nat \<Rightarrow> rat \<Rightarrow> rat" where
  "float_round p x =
     (if x = 0 then 0
      else let e = binade x - int p + 1
           in of_int (round_even (x / 2 powi e)) * 2 powi e)"

fun sqrt_bits :: "nat \<Rightarrow> int \<Rightarrow> int \<Rightarrow> int" where
  "sqrt_bits 0 n r = r"
| "sqrt_bits (Suc k) n r =
     (if (r + 2 ^ k) * (r + 2 ^ k) \<le> n then sqrt_bits k n (r + 2 ^ k)
      else sqrt_bits k n r)"

definition floor_sqrt :: "int \<Rightarrow> int" where
  "floor_sqrt n = sqrt_bits (nat (bitlen n)) n 0"

definition sqrt_round :: "nat \<Rightarrow> rat \<Rightarrow> rat" where
  "sqrt_round p x =
     (if x \<le> 0 then 0
      else let e = binade x div 2 - int p + 1;
               y = x / 2 powi (2 * e);
               s = floor_sqrt \<lfloor>y\<rfloor>;
               m = (if y < (of_int s + 1 / 2) * (of_int s + 1 / 2) then s
                    else if (of_int s + 1 / 2) * (of_int s + 1 / 2) < y then s + 1
                    else if even s then s else s + 1)
           in of_int m * 2 powi e)"

text \<open>
  \<open>roundf\<close> rounds to the nearest integer, a tie away from zero; the conversion to
  \<open>int\<close> drops the fraction. Narrowing a \<open>double\<close> to \<open>float\<close> rounds to 24 bits; a
  \<open>float\<close> widens to \<open>double\<close> unchanged.
\<close>

definition ieee_fpu :: "rat fpu" where
  "ieee_fpu =
     \<lparr>f_of_int = (\<lambda>n. float_round 24 (of_int n)), f_lit = float_round 24,
      f_lt = (<), f_eq = (=),
      f_sub = (\<lambda>x y. float_round 24 (x - y)),
      f_mul = (\<lambda>x y. float_round 24 (x * y)),
      f_div = (\<lambda>x y. float_round 24 (x / y)),
      f_sqrt = sqrt_round 24,
      f_round = (\<lambda>x. if 0 \<le> x then of_int \<lfloor>x + 1 / 2\<rfloor> else - of_int \<lfloor>- x + 1 / 2\<rfloor>),
      f_to_int = (\<lambda>x. if 0 \<le> x then \<lfloor>x\<rfloor> else - \<lfloor>- x\<rfloor>),
      d_of_int = (\<lambda>n. float_round 53 (of_int n)), d_lit = float_round 53,
      d_add = (\<lambda>x y. float_round 53 (x + y)),
      d_sub = (\<lambda>x y. float_round 53 (x - y)),
      d_mul = (\<lambda>x y. float_round 53 (x * y)),
      d_div = (\<lambda>x y. float_round 53 (x / y)),
      d_sqrt = sqrt_round 53, d_to_f = float_round 24\<rparr>"

definition timer_200MHz :: "rat constants" where
  "timer_200MHz = \<lparr>TIMER_FREQUENCY = 200000000, DELAY_CYCLE_SHIFT = 5\<rparr>"

section \<open>Closed forms used in the proofs\<close>

text \<open>
  Per axis, the splitting loop adds the same increment in every iteration:
  \<open>hires_of D s\<close> is \<open>hires_steps_per_div\<close> for a request of \<open>s\<close> steps cut into
  \<open>D\<close> divisions, \<open>step_target D k s\<close> is \<open>accumulator.steps\<close> after \<open>k\<close>
  iterations, and \<open>step_delta D k s\<close> is \<open>output.steps\<close> of iteration \<open>k\<close>
  (counted from 0).
\<close>

definition hires_of :: "int \<Rightarrow> int \<Rightarrow> int" where
  "hires_of D s = c_div (s * 2 ^ 32) D + 1"

definition step_target :: "int \<Rightarrow> nat \<Rightarrow> int \<Rightarrow> int" where
  "step_target D k s = (int k * hires_of D s) div 2 ^ 32"

definition step_delta :: "int \<Rightarrow> nat \<Rightarrow> int \<Rightarrow> int" where
  "step_delta D k s = step_target D (Suc k) s - step_target D k s"





definition divisions_of :: "int \<Rightarrow> int" where
  "divisions_of d = d div MAX_STEPS_PER_SEGMENT + 1"

definition split_inv :: "int \<Rightarrow> int list \<Rightarrow> nat \<Rightarrow> 'f split_state \<Rightarrow> bool" where
  "split_inv D sts k st \<longleftrightarrow>
     hires_step_accumulator st = map (\<lambda>s. int k * hires_of D s) sts \<and>
     previous st = map (step_target D k) sts"

text \<open>What a call of the synthesizer looks like without its speeds.\<close>

definition call_view :: "'f MotorMovement \<times> int \<Rightarrow> int list \<times> nat option \<times> int" where
  "call_view c = (steps (fst c), aux_bits (fst c), snd c)"

definition division_view :: "int \<Rightarrow> int list \<Rightarrow> nat \<Rightarrow> int list \<times> nat option \<times> int" where
  "division_view D sts k =
     (map (step_delta D k) sts, None, get_defining_axis_steps (map (step_delta D k) sts))"

definition segs_of_calls ::
  "'f fpu \<Rightarrow> 'f constants \<Rightarrow> 'f \<Rightarrow> ('f MotorMovement \<times> int) list \<Rightarrow> MotionSegment list" where
  "segs_of_calls fp hw limit cs = map (\<lambda>c. new_element fp hw limit (fst c) (snd c)) cs"

definition extends ::
  "'f fpu \<Rightarrow> 'f constants \<Rightarrow> 'f \<Rightarrow> 'f world \<Rightarrow> ('f MotorMovement \<times> int) list \<Rightarrow> 'f world" where
  "extends fp hw limit w cs =
     w\<lparr>queue := queue w @ segs_of_calls fp hw limit cs, synth_calls := synth_calls w @ cs\<rparr>"

text \<open>
  The calls of the synthesizer made, and the segments handed to the queue, between a
  world \<open>w\<close> and a later world \<open>w'\<close>.
\<close>

definition calls_made :: "'f world \<Rightarrow> 'f world \<Rightarrow> ('f MotorMovement \<times> int) list" where
  "calls_made w w' = drop (length (synth_calls w)) (synth_calls w')"

definition enqueued :: "'f world \<Rightarrow> 'f world \<Rightarrow> MotionSegment list" where
  "enqueued w w' = drop (length (queue w)) (queue w')"

section \<open>Concrete requests\<close>

text \<open>
  The frequency limit as initialised, and requests on which the model is evaluated:
  a move of two axes that fits one segment, a move that has to be split, a move of a
  single step, a move at speed zero, a deceleration to a stop that has to be split, a
  move at constant speed below the frequency limit, one above it, and a move of no
  steps at all.
\<close>

definition limit_1MHz :: real where
  "limit_1MHz = beagleg_init_motor_ops exact_fpu"

definition short_move :: "real MotorMovement" where
  "short_move = \<lparr>v0 = 100, v1 = 100, aux_bits = Some 1, steps = [1000, - 500]\<rparr>"

definition long_move :: "real MotorMovement" where
  "long_move = \<lparr>v0 = 100, v1 = 100, aux_bits = Some 1, steps = [40000, - 1]\<rparr>"

definition unit_move :: "real MotorMovement" where
  "unit_move = \<lparr>v0 = 100, v1 = 100, aux_bits = Some 1, steps = [1]\<rparr>"

definition stalled_move :: "real MotorMovement" where
  "stalled_move = \<lparr>v0 = 0, v1 = 0, aux_bits = Some 1, steps = [1]\<rparr>"




definition null_move :: "real MotorMovement" where
  "null_move = \<lparr>v0 = 100, v1 = 100, aux_bits = Some 1, steps = [0, 0]\<rparr>"

section \<open>Machine arithmetic without wrap-around\<close>

lemma s32_id: "- (2 ^ 31) \<le> x \<Longrightarrow> x < 2 ^ 31 \<Longrightarrow> s32 x = x"
  by (simp add: s32_def)

lemma s64_id: "- (2 ^ 63) \<le> x \<Longrightarrow> x < 2 ^ 63 \<Longrightarrow> s64 x = x"
  by (simp add: s64_def)

lemma u64_id: "0 \<le> x \<Longrightarrow> x < 2 ^ 64 \<Longrightarrow> u64 x = x"
  by (simp add: u64_def)

lemma u32_id: "0 \<le> x \<Longrightarrow> x < 2 ^ 32 \<Longrightarrow> u32 x = x"
  by (simp add: u32_def)

lemma c_abs_ok: "int_abs_ok x \<Longrightarrow> c_abs x = \<bar>x\<bar>"
  unfolding c_abs_def int_abs_ok_def by (rule s32_id) auto

lemma c_div_pos: "0 < b \<Longrightarrow> c_div a b = (if 0 \<le> a then a div b else - ((- a) div b))"
  by (auto simp: c_div_def sgn_if)

lemma LOOPS_PER_STEP_eq: "LOOPS_PER_STEP = 2"
  by (simp add: LOOPS_PER_STEP_def)

lemma MAX_STEPS_eq: "MAX_STEPS_PER_SEGMENT = 32767"
  by (simp add: MAX_STEPS_PER_SEGMENT_def LOOPS_PER_STEP_eq)

lemma max_fraction_eq: "max_fraction = 2147483647"
  by (simp add: max_fraction_def LOOPS_PER_STEP_eq u64_def)

lemma hires_char:
  assumes D: "0 < D"
  shows "s * 2 ^ 32 < D * hires_of D s \<and> D * hires_of D s < s * 2 ^ 32 + 2 * D"
proof (cases "0 \<le> s")
  case True
  let ?a = "s * 4294967296"
  have "hires_of D s = ?a div D + 1" using True D by (simp add: hires_of_def c_div_pos)
  then have "D * hires_of D s = ?a - ?a mod D + D"
    by (simp add: algebra_simps minus_mod_eq_mult_div)
  moreover have "0 \<le> ?a mod D" "?a mod D < D" using D by simp_all
  ultimately show ?thesis by simp
next
  case False
  let ?a = "- (s * 4294967296)"
  have "hires_of D s = - (?a div D) + 1" using False D by (simp add: hires_of_def c_div_pos)
  then have "D * hires_of D s = - (D * (?a div D)) + D"
    by (simp only: distrib_left mult_minus_right mult_1_right)
  then have "D * hires_of D s = - (?a - ?a mod D) + D"
    by (simp only: minus_mod_eq_mult_div)
  moreover have "0 \<le> ?a mod D" "?a mod D < D" using D by simp_all
  ultimately show ?thesis by simp
qed

lemma hires_pos: "0 < D \<Longrightarrow> 0 \<le> s \<Longrightarrow> 0 < hires_of D s"
proof -
  assume D: "0 < D" and s: "0 \<le> s"
  from hires_char [OF D, of s] s have "0 < D * hires_of D s" by simp
  with D show ?thesis by (simp add: zero_less_mult_iff)
qed

lemma hires_neg: "0 < D \<Longrightarrow> D \<le> 2 ^ 31 \<Longrightarrow> s < 0 \<Longrightarrow> hires_of D s < 0"
proof -
  assume D: "0 < D" "D \<le> 2 ^ 31" and s: "s < 0"
  from hires_char [OF D(1), of s] s D have "D * hires_of D s < 0" by simp
  with D show ?thesis by (simp add: mult_less_0_iff)
qed

lemma target_zero: "step_target D 0 s = 0"
  by (simp add: step_target_def)

lemma target_final:
  assumes "0 < D" "D \<le> 2 ^ 31"
  shows "step_target D (nat D) s = s"
proof -
  let ?x = "D * hires_of D s"
  from hires_char [OF assms(1), of s] assms
  have lo: "s * 4294967296 \<le> ?x" and hi: "?x < (s + 1) * 4294967296" by simp_all
  have "?x div 4294967296 = s"
    by (rule int_div_pos_eq [where r = "?x - s * 4294967296"]) (use lo hi in simp_all)
  with assms show ?thesis by (simp add: step_target_def)
qed

lemma target_mono_pos:
  "0 \<le> h \<Longrightarrow> j \<le> k \<Longrightarrow> (int j * h) div 2 ^ 32 \<le> (int k * h) div 2 ^ 32"
  by (intro zdiv_mono1 mult_right_mono) simp_all

lemma target_mono_neg:
  "h \<le> 0 \<Longrightarrow> j \<le> k \<Longrightarrow> (int k * h) div 2 ^ 32 \<le> (int j * h) div 2 ^ 32"
  by (intro zdiv_mono1 mult_right_mono_neg) simp_all

lemma target_range_pos:
  assumes "0 < D" "D \<le> 2 ^ 31" "0 \<le> s" "int k \<le> D"
  shows "0 \<le> step_target D k s \<and> step_target D k s \<le> s"
proof -
  have h: "0 \<le> hires_of D s" using hires_pos [of D s] assms by simp
  have k: "k \<le> nat D" using assms by simp
  from target_mono_pos [OF h, of 0 k] have "0 \<le> step_target D k s"
    by (simp add: step_target_def)
  moreover from target_mono_pos [OF h k] target_final [OF assms(1,2), of s]
  have "step_target D k s \<le> s" by (simp add: step_target_def)
  ultimately show ?thesis by simp
qed

lemma target_range_neg:
  assumes "0 < D" "D \<le> 2 ^ 31" "s < 0" "int k \<le> D"
  shows "s \<le> step_target D k s \<and> step_target D k s \<le> 0"
proof -
  have h: "hires_of D s \<le> 0" using hires_neg [of D s] assms by simp
  have k: "k \<le> nat D" using assms by simp
  from target_mono_neg [OF h, of 0 k] have "step_target D k s \<le> 0"
    by (simp add: step_target_def)
  moreover from target_mono_neg [OF h k] target_final [OF assms(1,2), of s]
  have "s \<le> step_target D k s" by (simp add: step_target_def)
  ultimately show ?thesis by simp
qed

lemma delta_range_pos:
  assumes "0 < D" "D \<le> 2 ^ 31" "0 \<le> s" "int k < D"
  shows "0 \<le> step_delta D k s \<and> step_delta D k s \<le> s"
proof -
  have h: "0 \<le> hires_of D s" using hires_pos [of D s] assms by simp
  from target_mono_pos [OF h, of k "Suc k"] have "0 \<le> step_delta D k s"
    by (simp add: step_delta_def step_target_def)
  moreover from target_range_pos [OF assms(1-3), of k] target_range_pos [OF assms(1-3), of "Suc k"] assms(4)
  have "step_delta D k s \<le> s" by (simp add: step_delta_def)
  ultimately show ?thesis by simp
qed

lemma delta_range_neg:
  assumes "0 < D" "D \<le> 2 ^ 31" "s < 0" "int k < D"
  shows "s \<le> step_delta D k s \<and> step_delta D k s \<le> 0"
proof -
  have h: "hires_of D s \<le> 0" using hires_neg [of D s] assms by simp
  from target_mono_neg [OF h, of k "Suc k"] have "step_delta D k s \<le> 0"
    by (simp add: step_delta_def step_target_def)
  moreover from target_range_neg [OF assms(1-3), of k] target_range_neg [OF assms(1-3), of "Suc k"] assms(4)
  have "s \<le> step_delta D k s" by (simp add: step_delta_def)
  ultimately show ?thesis by simp
qed

lemma delta_sum: "(\<Sum>k<n. step_delta D k s) = step_target D n s"
  by (induction n) (simp_all add: step_delta_def target_zero)

section \<open>The loops over the axes\<close>

lemma gdas_fold:
  "1 \<le> k \<Longrightarrow> k \<le> length st \<Longrightarrow>
   fold (\<lambda>i d. if c_abs (st ! i) > d then c_abs (st ! i) else d) [1..<k] (c_abs (st ! 0))
     = Max (c_abs ` set (take k st))"
proof (induction k)
  case 0
  then show ?case by simp
next
  case (Suc k)
  show ?case
  proof (cases "k = 0")
    case True
    with Suc.prems have "take (Suc k) st = [st ! 0]"
      by (cases st) simp_all
    with True show ?thesis by simp
  next
    case False
    with Suc have IH: "fold (\<lambda>i d. if c_abs (st ! i) > d then c_abs (st ! i) else d) [1..<k] (c_abs (st ! 0))
        = Max (c_abs ` set (take k st))" by simp
    have k: "k < length st" using Suc.prems by simp
    have ne: "c_abs ` set (take k st) \<noteq> {}" using False k by (cases st) auto
    have "set (take (Suc k) st) = insert (st ! k) (set (take k st))"
      by (simp add: take_Suc_conv_app_nth [OF k])
    then have "Max (c_abs ` set (take (Suc k) st))
            = Max (insert (c_abs (st ! k)) (c_abs ` set (take k st)))"
      by (simp only: image_insert)
    also have "\<dots> = max (c_abs (st ! k)) (Max (c_abs ` set (take k st)))"
      using ne by (intro Max_insert) simp_all
    finally have M: "Max (c_abs ` set (take (Suc k) st))
            = max (c_abs (st ! k)) (Max (c_abs ` set (take k st)))" .
    have "[1..<Suc k] = [1..<k] @ [k]" using False by simp
    then have "fold (\<lambda>i d. if c_abs (st ! i) > d then c_abs (st ! i) else d) [1..<Suc k] (c_abs (st ! 0))
       = (\<lambda>i d. if c_abs (st ! i) > d then c_abs (st ! i) else d) k
           (fold (\<lambda>i d. if c_abs (st ! i) > d then c_abs (st ! i) else d) [1..<k] (c_abs (st ! 0)))"
      by (simp only: fold_append o_apply fold_simps)
    also have "\<dots> = max (c_abs (st ! k)) (Max (c_abs ` set (take k st)))"
      unfolding IH by (simp add: max_def)
    finally show ?thesis by (simp only: M)
  qed
qed

lemma gdas_Max:
  "st \<noteq> [] \<Longrightarrow> get_defining_axis_steps st = Max (c_abs ` set st)"
proof -
  assume "st \<noteq> []"
  then have "1 \<le> length st" by (cases st) simp_all
  from gdas_fold [OF this, of st] show ?thesis
    unfolding get_defining_axis_steps_def by (simp only: order_refl take_all)
qed

lemma gdas_abs:
  assumes "st \<noteq> []" "\<forall>s\<in>set st. int_abs_ok s"
  shows "get_defining_axis_steps st = Max (abs ` set st)"
proof -
  have "c_abs ` set st = abs ` set st"
    using assms(2) by (intro image_cong) (simp_all add: c_abs_ok)
  with gdas_Max [OF assms(1)] show ?thesis by simp
qed

lemma gdas_upper:
  assumes "st \<noteq> []" "\<forall>s\<in>set st. int_abs_ok s" "s \<in> set st"
  shows "\<bar>s\<bar> \<le> get_defining_axis_steps st"
  using assms by (simp add: gdas_abs)

lemma gdas_attained:
  assumes "st \<noteq> []" "\<forall>s\<in>set st. int_abs_ok s"
  shows "\<exists>s\<in>set st. \<bar>s\<bar> = get_defining_axis_steps st"
proof -
  have "Max (abs ` set st) \<in> abs ` set st"
    using assms(1) by (intro Max_in) simp_all
  then obtain s where "s \<in> set st" "Max (abs ` set st) = \<bar>s\<bar>" by auto
  then show ?thesis using gdas_abs [OF assms] by auto
qed

lemma gdas_zero_iff:
  assumes "st \<noteq> []" "\<forall>s\<in>set st. int_abs_ok s"
  shows "get_defining_axis_steps st = 0 \<longleftrightarrow> (\<forall>s\<in>set st. s = 0)"
proof
  assume z: "get_defining_axis_steps st = 0"
  show "\<forall>s\<in>set st. s = 0"
  proof
    fix s assume "s \<in> set st"
    from gdas_upper [OF assms this] z show "s = 0" by simp
  qed
next
  assume "\<forall>s\<in>set st. s = 0"
  with gdas_attained [OF assms] show "get_defining_axis_steps st = 0" by auto
qed

lemma bit_one_hot: "bit (push_bit k (1::nat)) i \<longleftrightarrow> i = k"
  by (auto simp: bit_exp_iff)

lemma axis_loop_fold:
  "k \<le> length st \<Longrightarrow>
   fold (axis_step st d) [0..<k] (0, []) = (b, fr) \<Longrightarrow>
   fr = map (\<lambda>s. axis_fraction s d) (take k st) \<and>
   (\<forall>i. bit b i \<longleftrightarrow> i < k \<and> st ! i < 0)"
proof (induction k arbitrary: b fr)
  case 0
  then show ?case by simp
next
  case (Suc k)
  obtain b0 fr0 where f0: "fold (axis_step st d) [0..<k] (0, []) = (b0, fr0)"
    by (cases "fold (axis_step st d) [0..<k] (0, [])") auto
  have k: "k < length st" using Suc.prems by simp
  from Suc.IH [OF _ f0] k
  have fr0: "fr0 = map (\<lambda>s. axis_fraction s d) (take k st)"
    and b0: "\<And>i. bit b0 i \<longleftrightarrow> i < k \<and> st ! i < 0" by simp_all
  from Suc.prems(2) have "axis_step st d k (fold (axis_step st d) [0..<k] (0, [])) = (b, fr)"
    by simp
  then have "axis_step st d k (b0, fr0) = (b, fr)" by (simp only: f0)
  then have b: "b = (if st ! k < 0 then b0 OR push_bit k 1 else b0)"
    and fr: "fr = fr0 @ [axis_fraction (st ! k) d]"
    by (simp_all add: axis_step_def split: if_splits)
  have "fr = map (\<lambda>s. axis_fraction s d) (take (Suc k) st)"
    using fr fr0 by (simp add: take_Suc_conv_app_nth [OF k])
  moreover have "\<forall>i. bit b i \<longleftrightarrow> i < Suc k \<and> st ! i < 0"
    using b b0
    by (cases "st ! k < 0") (auto simp only: bit_or_iff bit_one_hot less_Suc_eq if_True if_False)
  ultimately show ?case by simp
qed

lemma axis_loop_char:
  "axis_loop st d = (b, fr) \<Longrightarrow>
   fr = map (\<lambda>s. axis_fraction s d) st \<and> (\<forall>i. bit b i \<longleftrightarrow> i < length st \<and> st ! i < 0)"
  using axis_loop_fold [of "length st" st d b fr] unfolding axis_loop_def by simp

lemma axis_loop_fractions: "snd (axis_loop st d) = map (\<lambda>s. axis_fraction s d) st"
  using axis_loop_char [of st d] by (cases "axis_loop st d") simp

lemma axis_loop_bits: "bit (fst (axis_loop st d)) i \<longleftrightarrow> i < length st \<and> st ! i < 0"
  using axis_loop_char [of st d] by (cases "axis_loop st d") simp

lemma new_element_direction_bits:
  "direction_bits (new_element fp hw limit p d) = fst (axis_loop (steps p) d)"
  by (simp add: new_element_def Let_def split: prod.splits)

lemma new_element_fractions:
  "fractions (new_element fp hw limit p d) = snd (axis_loop (steps p) d)"
  by (simp add: new_element_def Let_def split: prod.splits)

lemma new_element_aux: "aux (new_element fp hw limit p d) = aux_bits p"
  by (simp add: new_element_def Let_def split: prod.splits)

lemma new_element_state: "state (new_element fp hw limit p d) = STATE_FILLED"
  by (simp add: new_element_def Let_def split: prod.splits)

section \<open>The splitting loop\<close>

lemma shift_wrap: "int_abs_ok s \<Longrightarrow> s64 (s * 2 ^ 32) = s * 2 ^ 32"
  by (rule s64_id) (simp_all add: int_abs_ok_def)

lemma c_div_bounds: "0 < D \<Longrightarrow> - \<bar>a\<bar> \<le> c_div a D \<and> c_div a D \<le> \<bar>a\<bar>"
proof -
  assume D: "0 < D"
  have "\<bar>a\<bar> div D \<le> \<bar>a\<bar> div 1" using D by (intro zdiv_mono2) simp_all
  then have "\<bar>a\<bar> div D \<le> \<bar>a\<bar>" by simp
  moreover have "0 \<le> \<bar>a\<bar> div D" using D by (simp add: pos_imp_zdiv_nonneg_iff)
  ultimately show ?thesis using D by (auto simp: c_div_def sgn_if)
qed

lemma hires_wrap:
  assumes "int_abs_ok s" "0 < D"
  shows "s64 (c_div (s64 (s * 2 ^ 32)) D + 1) = hires_of D s"
proof -
  have "\<bar>s * 2 ^ 32\<bar> \<le> 2147483647 * 4294967296"
    using assms(1) by (simp add: int_abs_ok_def abs_le_iff)
  with c_div_bounds [OF assms(2), of "s * 2 ^ 32"]
  have "- (2 ^ 63) \<le> c_div (s * 2 ^ 32) D + 1" "c_div (s * 2 ^ 32) D + 1 < 2 ^ 63"
    by simp_all
  then have "s64 (c_div (s * 2 ^ 32) D + 1) = c_div (s * 2 ^ 32) D + 1" by (rule s64_id)
  then show ?thesis by (simp only: shift_wrap [OF assms(1)] hires_of_def)
qed

lemma acc_range:
  assumes "int_abs_ok s" "0 < D" "D \<le> 2 ^ 31" "int k \<le> D"
  shows "- (2 ^ 63) \<le> int k * hires_of D s \<and> int k * hires_of D s < 2 ^ 63"
proof (cases "0 \<le> s")
  case True
  then have h: "0 \<le> hires_of D s" using hires_pos [of D s] assms by simp
  then have "0 \<le> int k * hires_of D s" by simp
  moreover have "int k * hires_of D s \<le> D * hires_of D s"
    using h assms(4) by (rule mult_right_mono [rotated])
  moreover have "D * hires_of D s < 2 ^ 63"
    using hires_char [OF assms(2), of s] assms(1,3) by (simp add: int_abs_ok_def)
  ultimately show ?thesis by simp
next
  case False
  then have h: "hires_of D s \<le> 0" using hires_neg [of D s] assms by simp
  then have "int k * hires_of D s \<le> 0" by (simp add: mult_nonneg_nonpos)
  moreover have "D * hires_of D s \<le> int k * hires_of D s"
    using assms(4) h by (rule mult_right_mono_neg)
  moreover have "- (2 ^ 63) \<le> D * hires_of D s"
    using hires_char [OF assms(2), of s] assms(1,3) by (simp add: int_abs_ok_def)
  ultimately show ?thesis by simp
qed

lemma acc_wrap:
  assumes "int_abs_ok s" "0 < D" "D \<le> 2 ^ 31" "int k < D"
  shows "s64 (int k * hires_of D s + hires_of D s) = int (Suc k) * hires_of D s"
proof -
  have e: "int k * hires_of D s + hires_of D s = int (Suc k) * hires_of D s"
    by (simp add: algebra_simps)
  have "int (Suc k) \<le> D" using assms(4) by simp
  from acc_range [OF assms(1-3) this] show ?thesis
    unfolding e by (intro s64_id) simp_all
qed

lemma target_wrap:
  assumes "int_abs_ok s" "0 < D" "D \<le> 2 ^ 31" "int k \<le> D"
  shows "s32 (int k * hires_of D s div 2 ^ 32) = step_target D k s"
proof -
  have "- (2 ^ 31) \<le> step_target D k s \<and> step_target D k s < 2 ^ 31"
    using target_range_pos [of D s k] target_range_neg [of D s k] assms
    by (cases "0 \<le> s") (simp_all add: int_abs_ok_def)
  then have "s32 (step_target D k s) = step_target D k s" by (intro s32_id) simp_all
  then show ?thesis by (simp add: step_target_def)
qed

lemma delta_wrap:
  assumes "int_abs_ok s" "0 < D" "D \<le> 2 ^ 31" "int k < D"
  shows "s32 (step_target D (Suc k) s - step_target D k s) = step_delta D k s"
proof -
  have "- (2 ^ 31) \<le> step_delta D k s \<and> step_delta D k s < 2 ^ 31"
    using delta_range_pos [of D s k] delta_range_neg [of D s k] assms
    by (cases "0 \<le> s") (simp_all add: int_abs_ok_def)
  then have "s32 (step_delta D k s) = step_delta D k s" by (intro s32_id) simp_all
  then show ?thesis by (simp add: step_delta_def)
qed

lemma map2_same: "map2 g (map f xs) (map h xs) = map (\<lambda>x. g (f x) (h x)) xs"
  by (induction xs) simp_all

lemma extends_nil: "extends fp hw limit w [] = w"
  by (simp add: extends_def segs_of_calls_def)

lemma extends_append:
  "extends fp hw limit (extends fp hw limit w cs) cs' = extends fp hw limit w (cs @ cs')"
  by (simp add: extends_def segs_of_calls_def)

lemma internal_extends:
  "beagleg_enqueue_internal fp hw limit w p d = extends fp hw limit w [(p, d)]"
  by (simp add: beagleg_enqueue_internal_def extends_def segs_of_calls_def)

lemma division_step:
  assumes ok: "\<forall>s\<in>set sts. int_abs_ok s" and D: "0 < D" "D \<le> 2 ^ 31" and k: "int k < D"
    and inv: "split_inv D sts k st"
  shows "\<exists>c. call_view c = division_view D sts k \<and>
             wld (division fp hw limit a (map (hires_of D) sts) st)
               = extends fp hw limit (wld st) [c] \<and>
             split_inv D sts (Suc k) (division fp hw limit a (map (hires_of D) sts) st)"
proof -
  have acc: "map2 (\<lambda>x h. s64 (x + h)) (hires_step_accumulator st) (map (hires_of D) sts)
               = map (\<lambda>s. int (Suc k) * hires_of D s) sts"
    using inv ok D k unfolding split_inv_def
    by (simp only: map2_same) (rule map_cong, simp, rule acc_wrap, simp_all)
  have tgt: "map (\<lambda>x. s32 (x div 2 ^ 32)) (map (\<lambda>s. int (Suc k) * hires_of D s) sts)
               = map (step_target D (Suc k)) sts"
    unfolding map_map o_def
    using ok D k by (intro map_cong refl target_wrap) simp_all
  have out: "map2 (\<lambda>x y. s32 (x - y)) (map (step_target D (Suc k)) sts) (previous st)
               = map (step_delta D k) sts"
    using inv ok D k unfolding split_inv_def
    by (simp only: map2_same) (rule map_cong, simp, rule delta_wrap, simp_all)
  let ?ds = "get_defining_axis_steps (map (step_delta D k) sts)"
  let ?v1sq = "d_add fp (sqd fp (previous_speed st))
                 (d_mul fp (d_mul fp (d_lit fp 2) a) (d_of_int fp ?ds))"
  let ?v1 = "if f_lt fp (d_lit fp 0) ?v1sq then d_sqrt fp ?v1sq else d_of_int fp 0"
  let ?out = "\<lparr>v0 = d_to_f fp (previous_speed st), v1 = d_to_f fp ?v1,
               aux_bits = None, steps = map (step_delta D k) sts\<rparr>"
  show ?thesis
    unfolding division_def Let_def acc tgt out
    by (intro exI [of _ "(?out, ?ds)"])
       (simp add: internal_extends call_view_def division_view_def split_inv_def)
qed

lemma split_loop_calls:
  assumes ok: "\<forall>s\<in>set sts. int_abs_ok s" and D: "0 < D" "D \<le> 2 ^ 31"
  shows "split_inv D sts k st \<Longrightarrow> int (k + n) \<le> D \<Longrightarrow>
         \<exists>cs. map call_view cs = map (division_view D sts) [k..<k + n] \<and>
              wld (split_loop n (division fp hw limit a (map (hires_of D) sts)) st)
                = extends fp hw limit (wld st) cs"
proof (induction n arbitrary: k st)
  case 0
  show ?case by (intro exI [of _ "[]"]) (simp add: extends_nil)
next
  case (Suc n)
  let ?body = "division fp hw limit a (map (hires_of D) sts)"
  have k: "int k < D" using Suc.prems(2) by simp
  from division_step [OF ok D k Suc.prems(1), of fp hw limit a]
  obtain c where c: "call_view c = division_view D sts k"
    and w1: "wld (?body st) = extends fp hw limit (wld st) [c]"
    and inv1: "split_inv D sts (Suc k) (?body st)" by blast
  have "int (Suc k + n) \<le> D" using Suc.prems(2) by simp
  from Suc.IH [OF inv1 this]
  obtain cs where cs: "map call_view cs = map (division_view D sts) [Suc k..<Suc k + n]"
    and w2: "wld (split_loop n ?body (?body st)) = extends fp hw limit (wld (?body st)) cs"
    by blast
  have "[k..<k + Suc n] = k # [Suc k..<Suc k + n]" by (simp add: upt_conv_Cons)
  then have "map call_view (c # cs) = map (division_view D sts) [k..<k + Suc n]"
    using c cs by simp
  moreover have "wld (split_loop (Suc n) ?body st) = extends fp hw limit (wld st) (c # cs)"
    using w2 by (simp add: w1 extends_append)
  ultimately show ?case by blast
qed

lemma gdas_range:
  assumes "st \<noteq> []" "\<forall>s\<in>set st. int_abs_ok s"
  shows "0 \<le> get_defining_axis_steps st \<and> get_defining_axis_steps st < 2 ^ 31"
proof -
  from gdas_attained [OF assms] obtain s where "s \<in> set st" "\<bar>s\<bar> = get_defining_axis_steps st"
    by blast
  with assms(2) show ?thesis by (auto simp: int_abs_ok_def)
qed

lemma div_max_bounds: "(0::int) \<le> d \<Longrightarrow> 0 \<le> d div 32767 \<and> d div 32767 \<le> d"
proof -
  assume d: "0 \<le> d"
  have "d div 32767 \<le> d div 1" using d by (intro zdiv_mono2) simp_all
  with d show ?thesis by (simp add: pos_imp_zdiv_nonneg_iff)
qed

lemma divisions_wrap:
  assumes "0 \<le> d" "d < 2 ^ 31"
  shows "s32 (c_div d MAX_STEPS_PER_SEGMENT + 1) = divisions_of d"
proof -
  have "c_div d MAX_STEPS_PER_SEGMENT = d div 32767"
    using assms by (simp add: c_div_pos MAX_STEPS_eq)
  moreover note div_max_bounds [OF assms(1)]
  ultimately have "- (2 ^ 31) \<le> d div 32767 + 1" "d div 32767 + 1 < 2 ^ 31"
    "c_div d MAX_STEPS_PER_SEGMENT + 1 = d div 32767 + 1"
    using assms by simp_all
  then show ?thesis
    by (simp only: divisions_of_def MAX_STEPS_eq s32_id)
qed

lemma divisions_range:
  assumes "0 \<le> d" "d < 2 ^ 31"
  shows "0 < divisions_of d \<and> divisions_of d \<le> 2 ^ 31"
  using assms div_max_bounds [of d] by (simp add: divisions_of_def MAX_STEPS_eq)

lemma enqueue_zero:
  "get_defining_axis_steps (steps p) = 0 \<Longrightarrow>
   beagleg_enqueue fp hw limit w p es =
     (1, w\<lparr>written := written w @
              [(case es of Some s \<Rightarrow> Stream s | None \<Rightarrow> Stderr,
                ''zero steps. Ignoring command.'' @ [CHR 0x0A])]\<rparr>)"
  by (simp add: beagleg_enqueue_def)

lemma enqueue_single:
  "get_defining_axis_steps (steps p) \<noteq> 0 \<Longrightarrow>
   get_defining_axis_steps (steps p) \<le> MAX_STEPS_PER_SEGMENT \<Longrightarrow>
   beagleg_enqueue fp hw limit w p es =
     (0, extends fp hw limit w [(p, get_defining_axis_steps (steps p))])"
  by (simp add: beagleg_enqueue_def internal_extends)

lemma enqueue_split:
  assumes ne: "steps p \<noteq> []" and ok: "\<forall>s\<in>set (steps p). int_abs_ok s"
    and big: "get_defining_axis_steps (steps p) > MAX_STEPS_PER_SEGMENT"
  shows "\<exists>cs. map call_view cs =
                map (division_view (divisions_of (get_defining_axis_steps (steps p))) (steps p))
                  [0..<nat (divisions_of (get_defining_axis_steps (steps p)))] \<and>
              beagleg_enqueue fp hw limit w p es = (0, extends fp hw limit w cs)"
proof -
  let ?d = "get_defining_axis_steps (steps p)"
  let ?D = "divisions_of ?d"
  let ?a = "d_div fp (d_sub fp (sqd fp (v1 p)) (sqd fp (v0 p)))
              (d_mul fp (d_lit fp 2) (d_of_int fp ?d))"
  let ?st0 = "\<lparr>hires_step_accumulator = replicate (length (steps p)) 0,
               previous = replicate (length (steps p)) 0,
               previous_speed = v0 p, wld = w\<rparr>"
  from gdas_range [OF ne ok] have d: "0 \<le> ?d" "?d < 2 ^ 31" by simp_all
  from divisions_range [OF d] have D: "0 < ?D" "?D \<le> 2 ^ 31" by simp_all
  have hs: "map (\<lambda>s. s64 (c_div (s64 (s * 2 ^ 32)) ?D + 1)) (steps p)
              = map (hires_of ?D) (steps p)"
    using ok D by (intro map_cong refl hires_wrap) simp_all
  have "map (step_target ?D 0) (steps p) = replicate (length (steps p)) 0"
    unfolding target_zero [abs_def] by (rule map_replicate_const)
  then have inv0: "split_inv ?D (steps p) 0 ?st0"
    by (simp add: split_inv_def map_replicate_const)
  have "int (0 + nat ?D) \<le> ?D" using D by simp
  from split_loop_calls [OF ok D inv0 this, of fp hw limit ?a]
  obtain cs where cs: "map call_view cs = map (division_view ?D (steps p)) [0..<nat ?D]"
    and w: "wld (split_loop (nat ?D) (division fp hw limit ?a (map (hires_of ?D) (steps p))) ?st0)
              = extends fp hw limit w cs" by auto
  have "beagleg_enqueue fp hw limit w p es = (0, extends fp hw limit w cs)"
    using big d unfolding beagleg_enqueue_def Let_def divisions_wrap [OF d] hs
    by (simp add: w MAX_STEPS_eq)
  with cs show ?thesis by blast
qed

section \<open>Bounds on the step delta of a division\<close>

lemma div_step_bounds:
  fixes a b :: int
  shows "b div 4294967296 \<le> (a + b) div 4294967296 - a div 4294967296 \<and>
         (a + b) div 4294967296 - a div 4294967296 \<le> (b + 4294967295) div 4294967296"
proof -
  let ?M = "4294967296 :: int"
  have "a + b = (a div ?M) * ?M + (a mod ?M + b)" by simp
  then have "(a + b) div ?M = ((a div ?M) * ?M + (a mod ?M + b)) div ?M" by simp
  also have "\<dots> = a div ?M + (a mod ?M + b) div ?M" by (rule div_mult_self3) simp
  finally have e: "(a + b) div ?M - a div ?M = (a mod ?M + b) div ?M" by simp
  have "0 \<le> a mod ?M" "a mod ?M < ?M" by simp_all
  then have "b div ?M \<le> (a mod ?M + b) div ?M" "(a mod ?M + b) div ?M \<le> (b + 4294967295) div ?M"
    by (intro zdiv_mono1; simp)+
  with e show ?thesis by simp
qed

lemma delta_hires_bounds:
  "hires_of D s div 4294967296 \<le> step_delta D k s \<and>
   step_delta D k s \<le> (hires_of D s + 4294967295) div 4294967296"
  using div_step_bounds [of "hires_of D s" "int k * hires_of D s"]
  by (simp add: step_delta_def step_target_def algebra_simps)

lemma divisions_gt:
  assumes "0 \<le> d"
  shows "d < 32767 * divisions_of d"
proof -
  have "d = 32767 * (d div 32767) + d mod 32767" by simp
  moreover have "d mod 32767 < 32767" by simp
  moreover have "32767 * (d div 32767 + 1) = 32767 * (d div 32767) + 32767" by simp
  ultimately show ?thesis unfolding divisions_of_def MAX_STEPS_eq by linarith
qed

lemma divisions_lt:
  assumes "32767 < d"
  shows "divisions_of d < d"
proof -
  have "d = 32767 * (d div 32767) + d mod 32767" by simp
  moreover have "0 \<le> d mod 32767" by simp
  moreover have "0 \<le> d div 32767" using assms by (simp add: pos_imp_zdiv_nonneg_iff)
  ultimately show ?thesis using assms unfolding divisions_of_def MAX_STEPS_eq by linarith
qed

lemma delta_abs_le:
  assumes d: "0 \<le> d" "d < 2 ^ 31" and s: "\<bar>s\<bar> \<le> d" and k: "int k < divisions_of d"
  shows "\<bar>step_delta (divisions_of d) k s\<bar> \<le> 32767"
proof -
  let ?D = "divisions_of d" and ?h = "hires_of (divisions_of d) s"
  from divisions_range [OF d] have D: "0 < ?D" "?D \<le> 2 ^ 31" by simp_all
  from divisions_gt [OF d(1)] have dD: "d < 32767 * ?D" .
  note hc = hires_char [OF D(1), of s, simplified]
  note D' = D [simplified]
  show ?thesis
  proof (cases "0 \<le> s")
    case True
    from hc s dD D' have "?D * ?h < 140733193388032 * ?D" by linarith
    then have "?D * ?h < ?D * 140733193388032" by (simp only: mult.commute)
    then have "?h < 140733193388032" using D(1) by (simp only: mult_less_cancel_left_pos)
    then have "(?h + 4294967295) div 4294967296 \<le> (140733193388032 + 4294967294) div 4294967296"
      by (intro zdiv_mono1) simp_all
    then have "step_delta ?D k s \<le> 32767"
      using delta_hires_bounds [of ?D s k] by simp
    moreover have "0 \<le> step_delta ?D k s"
      using delta_range_pos [OF D True k] by simp
    ultimately show ?thesis by simp
  next
    case False
    then have neg: "s < 0" by simp
    from hc s dD D' have "- 140733193388032 * ?D < ?D * ?h" by linarith
    then have "?D * (- 140733193388032) < ?D * ?h" by (simp only: mult.commute)
    then have "- 140733193388032 < ?h" using D(1) by (simp only: mult_less_cancel_left_pos)
    then have "(- 140733193388032) div 4294967296 \<le> ?h div 4294967296"
      by (intro zdiv_mono1) simp_all
    then have "- 32767 \<le> step_delta ?D k s"
      using delta_hires_bounds [of ?D s k] by simp
    moreover have "step_delta ?D k s \<le> 0"
      using delta_range_neg [OF D neg k] by simp
    ultimately show ?thesis by simp
  qed
qed

lemma delta_abs_ge:
  assumes d: "32767 < d" "d < 2 ^ 31" and s: "\<bar>s\<bar> = d" and k: "int k < divisions_of d"
  shows "1 \<le> \<bar>step_delta (divisions_of d) k s\<bar>"
proof -
  let ?D = "divisions_of d" and ?h = "hires_of (divisions_of d) s"
  have d0: "0 \<le> d" using d by simp
  from divisions_range [OF d0 d(2)] have D: "0 < ?D" "?D \<le> 2 ^ 31" by simp_all
  from divisions_lt [OF d(1)] have Dd: "?D < d" .
  note hc = hires_char [OF D(1), of s, simplified]
  note D' = D [simplified]
  show ?thesis
  proof (cases "0 \<le> s")
    case True
    from hc s Dd True have "4294967296 * ?D < ?D * ?h" by linarith
    then have "?D * 4294967296 < ?D * ?h" by (simp only: mult.commute)
    then have "4294967296 < ?h" using D(1) by (simp only: mult_less_cancel_left_pos)
    then have "4294967296 div 4294967296 \<le> ?h div 4294967296"
      by (intro zdiv_mono1) simp_all
    then have "1 \<le> step_delta ?D k s"
      using delta_hires_bounds [of ?D s k] by simp
    then show ?thesis by simp
  next
    case False
    from hc s Dd False D' have "?D * ?h < - 4294967296 * ?D" by linarith
    then have "?D * ?h < ?D * (- 4294967296)" by (simp only: mult.commute)
    then have "?h < - 4294967296" using D(1) by (simp only: mult_less_cancel_left_pos)
    then have "(?h + 4294967295) div 4294967296 \<le> (- 4294967296 + 4294967294) div 4294967296"
      by (intro zdiv_mono1) simp_all
    then have "step_delta ?D k s \<le> - 1"
      using delta_hires_bounds [of ?D s k] by simp
    then show ?thesis by simp
  qed
qed

lemma delta_sign:
  assumes "0 < D" "D \<le> 2 ^ 31" "int k < D"
  shows "(step_delta D k s < 0 \<longrightarrow> s < 0) \<and> (0 < step_delta D k s \<longrightarrow> 0 < s)"
proof (cases "0 \<le> s")
  case True
  show ?thesis
  proof (cases "s = 0")
    case True
    with delta_range_pos [OF assms(1,2) _ assms(3), of s] show ?thesis by simp
  next
    case False
    with True delta_range_pos [OF assms(1,2) True assms(3)] show ?thesis by simp
  qed
next
  case False
  then have "s < 0" by simp
  from delta_range_neg [OF assms(1,2) this assms(3)] False show ?thesis by simp
qed

lemma division_steps_range:
  assumes ne: "sts \<noteq> []" and ok: "\<forall>s\<in>set sts. int_abs_ok s"
    and big: "32767 < get_defining_axis_steps sts"
    and k: "int k < divisions_of (get_defining_axis_steps sts)"
  shows "0 < get_defining_axis_steps (map (step_delta (divisions_of (get_defining_axis_steps sts)) k) sts)
       \<and> get_defining_axis_steps (map (step_delta (divisions_of (get_defining_axis_steps sts)) k) sts)
           \<le> 32767"
proof -
  let ?d = "get_defining_axis_steps sts"
  let ?D = "divisions_of ?d"
  let ?out = "map (step_delta ?D k) sts"
  from gdas_range [OF ne ok] have d: "0 \<le> ?d" "?d < 2 ^ 31" by simp_all
  have le: "\<bar>step_delta ?D k s\<bar> \<le> 32767" if "s \<in> set sts" for s
    using delta_abs_le [OF d gdas_upper [OF ne ok that] k] .
  have ne': "?out \<noteq> []" using ne by simp
  have "int_abs_ok (step_delta ?D k s)" if "s \<in> set sts" for s
    using le [OF that] unfolding int_abs_ok_def abs_le_iff by simp
  then have ok': "\<forall>x\<in>set ?out. int_abs_ok x" by auto
  from gdas_attained [OF ne ok] obtain s0 where s0: "s0 \<in> set sts" "\<bar>s0\<bar> = ?d" by blast
  from delta_abs_ge [OF big d(2) s0(2) k] have "1 \<le> \<bar>step_delta ?D k s0\<bar>" .
  moreover have "\<bar>step_delta ?D k s0\<bar> \<le> get_defining_axis_steps ?out"
    using s0(1) by (intro gdas_upper [OF ne' ok']) simp
  ultimately have lo: "0 < get_defining_axis_steps ?out" by simp
  from gdas_attained [OF ne' ok'] obtain x where x: "x \<in> set ?out" "\<bar>x\<bar> = get_defining_axis_steps ?out"
    by blast
  from x(1) obtain s1 where "s1 \<in> set sts" "x = step_delta ?D k s1" by auto
  with le [of s1] x(2) have "get_defining_axis_steps ?out \<le> 32767" by simp
  with lo show ?thesis by simp
qed

lemma delta_sum_list: "(\<Sum>k\<leftarrow>[0..<n]. step_delta D k s) = step_target D n s"
  by (induction n) (simp_all add: step_delta_def target_zero)

section \<open>Rounding of integers, and the speeds of the splitting loop\<close>









section \<open>The claims of the specification\<close>

lemma calls_made_extends: "calls_made w (extends fp hw limit w cs) = cs"
  by (simp add: calls_made_def extends_def)

lemma enqueued_extends: "enqueued w (extends fp hw limit w cs) = segs_of_calls fp hw limit cs"
  by (simp add: enqueued_def extends_def)

lemma gdas_long: "get_defining_axis_steps [40000, - 1] = 40000"
  by (simp add: get_defining_axis_steps_def c_abs_def s32_def)

text \<open>
  Claim C1. A request whose defining axis exceeds \<open>MAX_STEPS_PER_SEGMENT\<close> is cut
  into \<open>defining_axis_steps div MAX_STEPS_PER_SEGMENT + 1\<close> calls of the
  synthesizer, and for every axis the step counts of these calls add up to the step
  count requested for that axis, whatever its sign. The step counts range over the
  values of an \<open>int\<close> on which \<open>abs\<close> is defined.
\<close>

theorem split_conserves_steps:
  assumes "steps p \<noteq> []" and "\<forall>s\<in>set (steps p). int_abs_ok s"
    and "MAX_STEPS_PER_SEGMENT < get_defining_axis_steps (steps p)"
    and "i < length (steps p)"
  shows "MAX_STEPS_PER_SEGMENT = 65535 div 2 \<and>
         length (calls_made w (snd (beagleg_enqueue fp hw limit w p es)))
           = nat (get_defining_axis_steps (steps p) div MAX_STEPS_PER_SEGMENT + 1) \<and>
         (\<Sum>c\<leftarrow>calls_made w (snd (beagleg_enqueue fp hw limit w p es)). steps (fst c) ! i)
           = steps p ! i"
proof -
  let ?d = "get_defining_axis_steps (steps p)"
  let ?D = "divisions_of ?d"
  from enqueue_split [OF assms(1-3), of fp hw limit w es]
  obtain cs where cs: "map call_view cs = map (division_view ?D (steps p)) [0..<nat ?D]"
    and r: "beagleg_enqueue fp hw limit w p es = (0, extends fp hw limit w cs)" by blast
  have made: "calls_made w (snd (beagleg_enqueue fp hw limit w p es)) = cs"
    by (simp add: r calls_made_extends)
  from gdas_range [OF assms(1,2)] have d: "0 \<le> ?d" "?d < 2 ^ 31" by simp_all
  from divisions_range [OF d] have D: "0 < ?D" "?D \<le> 2 ^ 31" by simp_all
  have "length (map call_view cs) = nat ?D" unfolding cs by simp
  then have len: "length cs = nat ?D" by simp
  have "(\<Sum>c\<leftarrow>cs. steps (fst c) ! i) = (\<Sum>v\<leftarrow>map call_view cs. fst v ! i)"
    by (simp add: call_view_def o_def)
  also have "\<dots> = (\<Sum>k\<leftarrow>[0..<nat ?D]. step_delta ?D k (steps p ! i))"
    unfolding cs using assms(4) by (simp add: division_view_def o_def)
  also have "\<dots> = step_target ?D (nat ?D) (steps p ! i)" by (rule delta_sum_list)
  also have "\<dots> = steps p ! i" by (rule target_final [OF D])
  finally show ?thesis using len by (simp add: made divisions_of_def MAX_STEPS_eq)
qed

theorem split_conserves_steps_witness:
  "steps long_move \<noteq> [] \<and> int_abs_ok 40000 \<and> int_abs_ok (- 1) \<and>
   MAX_STEPS_PER_SEGMENT < get_defining_axis_steps (steps long_move) \<and>
   (1::nat) < length (steps long_move) \<and>
   length (calls_made world0 (snd (beagleg_enqueue exact_fpu hw200 limit_1MHz world0 long_move None))) = 2 \<and>
   (\<Sum>c\<leftarrow>calls_made world0 (snd (beagleg_enqueue exact_fpu hw200 limit_1MHz world0 long_move None)).
      steps (fst c) ! 1) = - 1"
proof -
  have h1: "steps long_move \<noteq> []" by (simp add: long_move_def)
  have h2: "\<forall>s\<in>set (steps long_move). int_abs_ok s"
    by (simp add: long_move_def int_abs_ok_def)
  have h3: "MAX_STEPS_PER_SEGMENT < get_defining_axis_steps (steps long_move)"
    by (simp add: long_move_def gdas_long MAX_STEPS_eq)
  have h4: "1 < length (steps long_move)" by (simp add: long_move_def)
  from split_conserves_steps [OF h1 h2 h3 h4, where fp = exact_fpu and hw = hw200 and limit = limit_1MHz and w = world0 and es = None]
  show ?thesis using h1 h3 h4
    by (simp add: long_move_def gdas_long MAX_STEPS_eq int_abs_ok_def)
qed


lemma accepted_calls:
  assumes ne: "steps p \<noteq> []" and ok: "\<forall>s\<in>set (steps p). int_abs_ok s"
    and nz: "get_defining_axis_steps (steps p) \<noteq> 0"
  shows "\<exists>cs. beagleg_enqueue fp hw limit w p es = (0, extends fp hw limit w cs) \<and>
          (if get_defining_axis_steps (steps p) \<le> MAX_STEPS_PER_SEGMENT
           then cs = [(p, get_defining_axis_steps (steps p))]
           else map call_view cs =
                  map (division_view (divisions_of (get_defining_axis_steps (steps p))) (steps p))
                    [0..<nat (divisions_of (get_defining_axis_steps (steps p)))])"
proof (cases "get_defining_axis_steps (steps p) \<le> MAX_STEPS_PER_SEGMENT")
  case True
  with enqueue_single [OF nz True, of fp hw limit w es] show ?thesis by simp
next
  case False
  then have "MAX_STEPS_PER_SEGMENT < get_defining_axis_steps (steps p)" by simp
  from enqueue_split [OF ne ok this, of fp hw limit w es] False show ?thesis by auto
qed

lemma division_call:
  assumes "map call_view cs = map (division_view D sts) [0..<n]" and "c \<in> set cs"
  shows "\<exists>k<n. call_view c = division_view D sts k"
proof -
  from assms(2) have "call_view c \<in> set (map call_view cs)" by simp
  then have "call_view c \<in> set (map (division_view D sts) [0..<n])" by (simp only: assms(1))
  then show ?thesis by auto
qed

text \<open>
  Claim C6. Every call of the synthesizer made for an accepted request passes a
  \<open>defining_axis_steps\<close> that is positive and at most \<open>MAX_STEPS_PER_SEGMENT\<close>; in
  the splitting path this is the step count of the division itself. The step counts
  range over the values of an \<open>int\<close> on which \<open>abs\<close> is defined.
\<close>

theorem synthesizer_precondition:
  assumes "steps p \<noteq> []" and "\<forall>s\<in>set (steps p). int_abs_ok s"
    and "get_defining_axis_steps (steps p) \<noteq> 0"
  shows "MAX_STEPS_PER_SEGMENT = 65535 div 2 \<and>
         fst (beagleg_enqueue fp hw limit w p es) = 0 \<and>
         (\<forall>c\<in>set (calls_made w (snd (beagleg_enqueue fp hw limit w p es))).
            0 < snd c \<and> snd c \<le> MAX_STEPS_PER_SEGMENT)"
proof -
  let ?d = "get_defining_axis_steps (steps p)"
  let ?D = "divisions_of ?d"
  from accepted_calls [OF assms, of fp hw limit w es]
  obtain cs where r: "beagleg_enqueue fp hw limit w p es = (0, extends fp hw limit w cs)"
    and cs: "if ?d \<le> MAX_STEPS_PER_SEGMENT then cs = [(p, ?d)]
             else map call_view cs = map (division_view ?D (steps p)) [0..<nat ?D]" by blast
  have made: "calls_made w (snd (beagleg_enqueue fp hw limit w p es)) = cs"
    by (simp add: r calls_made_extends)
  from gdas_range [OF assms(1,2)] assms(3) have d: "0 < ?d" by simp
  have "0 < snd c \<and> snd c \<le> MAX_STEPS_PER_SEGMENT" if c: "c \<in> set cs" for c
  proof (cases "?d \<le> MAX_STEPS_PER_SEGMENT")
    case True
    with cs c d show ?thesis by simp
  next
    case False
    with cs have v: "map call_view cs = map (division_view ?D (steps p)) [0..<nat ?D]" by simp
    from division_call [OF v c] obtain k where k: "k < nat ?D"
      and ck: "call_view c = division_view ?D (steps p) k" by blast
    from False have big: "32767 < ?d" by (simp add: MAX_STEPS_eq)
    from k have "int k < ?D" by simp
    from division_steps_range [OF assms(1,2) big this] ck show ?thesis
      by (simp add: call_view_def division_view_def MAX_STEPS_eq)
  qed
  then show ?thesis by (simp add: r calls_made_extends MAX_STEPS_eq)
qed

lemma long_move_views:
  "map call_view (calls_made world0 (snd (beagleg_enqueue exact_fpu hw200 limit_1MHz world0 long_move None)))
     = [([20000, - 1], None, 20000), ([20000, 0], None, 20000)]"
proof -
  have h1: "steps long_move \<noteq> []" by (simp add: long_move_def)
  have h2: "\<forall>s\<in>set (steps long_move). int_abs_ok s"
    by (simp add: long_move_def int_abs_ok_def)
  have h3: "MAX_STEPS_PER_SEGMENT < get_defining_axis_steps (steps long_move)"
    by (simp add: long_move_def gdas_long MAX_STEPS_eq)
  have D: "divisions_of 40000 = 2" by (simp add: divisions_of_def MAX_STEPS_eq)
  have up: "[0..<2] = [0, Suc 0]" by (simp add: upt_rec)
  have e: "step_delta 2 0 40000 = 20000" "step_delta 2 (Suc 0) 40000 = 20000"
    "step_delta 2 0 (- 1) = - 1" "step_delta 2 (Suc 0) (- 1) = 0"
    by (simp_all add: step_delta_def step_target_def hires_of_def c_div_def)
  have g: "get_defining_axis_steps [20000, - 1] = 20000"
    "get_defining_axis_steps [20000, 0] = 20000"
    by (simp_all add: get_defining_axis_steps_def c_abs_def s32_def)
  from enqueue_split [OF h1 h2 h3, of exact_fpu hw200 limit_1MHz world0 None]
  obtain cs where cs: "map call_view cs =
      map (division_view (divisions_of (get_defining_axis_steps (steps long_move))) (steps long_move))
        [0..<nat (divisions_of (get_defining_axis_steps (steps long_move)))]"
    and r: "beagleg_enqueue exact_fpu hw200 limit_1MHz world0 long_move None
              = (0, extends exact_fpu hw200 limit_1MHz world0 cs)" by blast
  have "map call_view cs = [([20000, - 1], None, 20000), ([20000, 0], None, 20000)]"
    unfolding cs by (simp add: long_move_def gdas_long D up division_view_def e g)
  then show ?thesis by (simp add: r calls_made_extends)
qed

theorem synthesizer_precondition_witness:
  "steps long_move \<noteq> [] \<and> int_abs_ok 40000 \<and> int_abs_ok (- 1) \<and>
   get_defining_axis_steps (steps long_move) \<noteq> 0 \<and>
   fst (beagleg_enqueue exact_fpu hw200 limit_1MHz world0 long_move None) = 0 \<and>
   0 < snd (hd (calls_made world0 (snd (beagleg_enqueue exact_fpu hw200 limit_1MHz world0 long_move None)))) \<and>
   snd (hd (calls_made world0 (snd (beagleg_enqueue exact_fpu hw200 limit_1MHz world0 long_move None))))
     \<le> MAX_STEPS_PER_SEGMENT"
proof -
  let ?cs = "calls_made world0 (snd (beagleg_enqueue exact_fpu hw200 limit_1MHz world0 long_move None))"
  have h1: "steps long_move \<noteq> []" by (simp add: long_move_def)
  have h2: "\<forall>s\<in>set (steps long_move). int_abs_ok s"
    by (simp add: long_move_def int_abs_ok_def)
  have h3: "get_defining_axis_steps (steps long_move) \<noteq> 0"
    by (simp add: long_move_def gdas_long)
  from long_move_views have "?cs \<noteq> []" by auto
  then have "hd ?cs \<in> set ?cs" by simp
  with synthesizer_precondition [OF h1 h2 h3, where fp = exact_fpu and hw = hw200
      and limit = limit_1MHz and w = world0 and es = None]
  show ?thesis using h1 h3 by (simp add: int_abs_ok_def)
qed


lemma new_element_bit:
  "bit (direction_bits (new_element fp hw limit p d)) i \<longleftrightarrow> i < length (steps p) \<and> steps p ! i < 0"
  by (simp add: new_element_direction_bits axis_loop_bits)

lemma accepted_enqueued:
  assumes "steps p \<noteq> []" and "\<forall>s\<in>set (steps p). int_abs_ok s"
    and "get_defining_axis_steps (steps p) \<noteq> 0"
  shows "enqueued w (snd (beagleg_enqueue fp hw limit w p es))
           = segs_of_calls fp hw limit (calls_made w (snd (beagleg_enqueue fp hw limit w p es)))"
proof -
  from accepted_calls [OF assms, of fp hw limit w es]
  obtain cs where "beagleg_enqueue fp hw limit w p es = (0, extends fp hw limit w cs)" by blast
  then show ?thesis by (simp add: calls_made_extends enqueued_extends)
qed

lemma accepted_steps:
  assumes ne: "steps p \<noteq> []" and ok: "\<forall>s\<in>set (steps p). int_abs_ok s"
    and nz: "get_defining_axis_steps (steps p) \<noteq> 0"
    and c: "c \<in> set (calls_made w (snd (beagleg_enqueue fp hw limit w p es)))"
    and i: "i < length (steps p)"
  shows "length (steps (fst c)) = length (steps p) \<and>
         (steps (fst c) ! i < 0 \<longrightarrow> steps p ! i < 0) \<and>
         (0 < steps (fst c) ! i \<longrightarrow> 0 < steps p ! i)"
proof -
  let ?d = "get_defining_axis_steps (steps p)"
  let ?D = "divisions_of ?d"
  from accepted_calls [OF ne ok nz, of fp hw limit w es]
  obtain cs where r: "beagleg_enqueue fp hw limit w p es = (0, extends fp hw limit w cs)"
    and cs: "if ?d \<le> MAX_STEPS_PER_SEGMENT then cs = [(p, ?d)]
             else map call_view cs = map (division_view ?D (steps p)) [0..<nat ?D]" by blast
  from c have c': "c \<in> set cs" by (simp add: r calls_made_extends)
  show ?thesis
  proof (cases "?d \<le> MAX_STEPS_PER_SEGMENT")
    case True
    with cs c' show ?thesis by simp
  next
    case False
    with cs have v: "map call_view cs = map (division_view ?D (steps p)) [0..<nat ?D]" by simp
    from division_call [OF v c'] obtain k where k: "k < nat ?D"
      and ck: "call_view c = division_view ?D (steps p) k" by blast
    from ck have st: "steps (fst c) = map (step_delta ?D k) (steps p)"
      by (simp add: call_view_def division_view_def)
    from gdas_range [OF ne ok] have d: "0 \<le> ?d" "?d < 2 ^ 31" by simp_all
    from divisions_range [OF d] have D: "0 < ?D" "?D \<le> 2 ^ 31" by simp_all
    from k have "int k < ?D" by simp
    from delta_sign [OF D this, of "steps p ! i"] i show ?thesis by (simp add: st)
  qed
qed

text \<open>
  Claim C8, as amended. For every accepted request, segment \<open>j\<close> of the queue comes from
  call \<open>j\<close> of the synthesizer, and its direction bit \<open>i\<close> is set exactly when the
  step count of axis \<open>i\<close> in that call is negative. On the single-segment path the call
  carries the request itself, so the bit is set exactly when \<open>steps[i] < 0\<close>. On the
  splitting path the step count of a division never has the sign opposite to the
  request's: a set bit implies \<open>steps[i] < 0\<close>, and a positive delta implies
  \<open>steps[i] > 0\<close>. A division in which a negative axis does not move has the bit clear.
\<close>

theorem direction_bits_of_segments:
  fixes fp :: "'f fpu" and hw limit w p es
  assumes "steps p \<noteq> []" and "\<forall>s\<in>set (steps p). int_abs_ok s"
    and "get_defining_axis_steps (steps p) \<noteq> 0"
  defines "w' \<equiv> snd (beagleg_enqueue fp hw limit w p es)"
  shows "length (enqueued w w') = length (calls_made w w') \<and>
         (\<forall>j<length (calls_made w w'). \<forall>i<length (steps p).
            (bit (direction_bits (enqueued w w' ! j)) i
               \<longleftrightarrow> steps (fst (calls_made w w' ! j)) ! i < 0) \<and>
            (steps (fst (calls_made w w' ! j)) ! i < 0 \<longrightarrow> steps p ! i < 0) \<and>
            (0 < steps (fst (calls_made w w' ! j)) ! i \<longrightarrow> 0 < steps p ! i)) \<and>
         (get_defining_axis_steps (steps p) \<le> MAX_STEPS_PER_SEGMENT
            \<longrightarrow> map fst (calls_made w w') = [p])"
proof -
  let ?cs = "calls_made w w'"
  have q: "enqueued w w' = segs_of_calls fp hw limit ?cs"
    unfolding w'_def by (rule accepted_enqueued [OF assms(1-3)])
  have len: "length (enqueued w w') = length ?cs" by (simp add: q segs_of_calls_def)
  have per: "(bit (direction_bits (enqueued w w' ! j)) i \<longleftrightarrow> steps (fst (?cs ! j)) ! i < 0) \<and>
             (steps (fst (?cs ! j)) ! i < 0 \<longrightarrow> steps p ! i < 0) \<and>
             (0 < steps (fst (?cs ! j)) ! i \<longrightarrow> 0 < steps p ! i)"
    if j: "j < length ?cs" and i: "i < length (steps p)" for j i
  proof -
    from j have "?cs ! j \<in> set ?cs" by simp
    from accepted_steps [OF assms(1-3) this [unfolded w'_def] i]
    have a: "length (steps (fst (?cs ! j))) = length (steps p)"
      and b: "steps (fst (?cs ! j)) ! i < 0 \<longrightarrow> steps p ! i < 0"
      and c: "0 < steps (fst (?cs ! j)) ! i \<longrightarrow> 0 < steps p ! i"
      unfolding w'_def by simp_all
    have "enqueued w w' ! j = new_element fp hw limit (fst (?cs ! j)) (snd (?cs ! j))"
      using j by (simp add: q segs_of_calls_def)
    then have "bit (direction_bits (enqueued w w' ! j)) i \<longleftrightarrow> steps (fst (?cs ! j)) ! i < 0"
      using i a by (simp add: new_element_bit)
    with b c show ?thesis by simp
  qed
  have single: "map fst ?cs = [p]"
    if "get_defining_axis_steps (steps p) \<le> MAX_STEPS_PER_SEGMENT"
    unfolding w'_def
    using enqueue_single [OF assms(3) that, of fp hw limit w es]
    by (simp add: calls_made_extends)
  from len per single show ?thesis by blast
qed

lemma long_move_enqueued:
  "enqueued world0 (snd (beagleg_enqueue exact_fpu hw200 limit_1MHz world0 long_move None))
     = segs_of_calls exact_fpu hw200 limit_1MHz
         (calls_made world0 (snd (beagleg_enqueue exact_fpu hw200 limit_1MHz world0 long_move None)))"
  by (rule accepted_enqueued) (simp_all add: long_move_def gdas_long int_abs_ok_def)

lemma long_move_second:
  "steps (fst (calls_made world0 (snd (beagleg_enqueue exact_fpu hw200 limit_1MHz world0 long_move None)) ! Suc 0))
     = [20000, 0]"
proof -
  let ?cs = "calls_made world0 (snd (beagleg_enqueue exact_fpu hw200 limit_1MHz world0 long_move None))"
  have "length (map call_view ?cs) = 2" by (simp only: long_move_views) simp
  then have "Suc 0 < length ?cs" by simp
  then have "call_view (?cs ! Suc 0) = map call_view ?cs ! Suc 0" by simp
  also have "\<dots> = ([20000, 0], None, 20000)" by (simp only: long_move_views) simp
  finally show ?thesis by (simp add: call_view_def)
qed

theorem direction_bits_of_segments_witness:
  "steps long_move \<noteq> [] \<and> int_abs_ok 40000 \<and> int_abs_ok (- 1) \<and>
   get_defining_axis_steps (steps long_move) \<noteq> 0 \<and>
   length (enqueued world0 (snd (beagleg_enqueue exact_fpu hw200 limit_1MHz world0 long_move None))) = 2 \<and>
   \<not> bit (direction_bits
           (enqueued world0 (snd (beagleg_enqueue exact_fpu hw200 limit_1MHz world0 long_move None)) ! 1)) 0"
proof -
  let ?w' = "snd (beagleg_enqueue exact_fpu hw200 limit_1MHz world0 long_move None)"
  have h1: "steps long_move \<noteq> []" by (simp add: long_move_def)
  have h2: "\<forall>s\<in>set (steps long_move). int_abs_ok s"
    by (simp add: long_move_def int_abs_ok_def)
  have h3: "get_defining_axis_steps (steps long_move) \<noteq> 0"
    by (simp add: long_move_def gdas_long)
  have "length (map call_view (calls_made world0 ?w')) = 2" by (simp only: long_move_views) simp
  then have l: "length (calls_made world0 ?w') = 2" by simp
  have i: "0 < length (steps long_move)" by (simp add: long_move_def)
  from direction_bits_of_segments [OF h1 h2 h3, where fp = exact_fpu and hw = hw200
      and limit = limit_1MHz and w = world0 and es = None]
  have "length (enqueued world0 ?w') = length (calls_made world0 ?w')"
    and "\<forall>j<length (calls_made world0 ?w'). \<forall>i<length (steps long_move).
            (bit (direction_bits (enqueued world0 ?w' ! j)) i
               \<longleftrightarrow> steps (fst (calls_made world0 ?w' ! j)) ! i < 0)"
    by simp_all
  with l i have "length (enqueued world0 ?w') = 2"
    and "bit (direction_bits (enqueued world0 ?w' ! 1)) 0
           \<longleftrightarrow> steps (fst (calls_made world0 ?w' ! 1)) ! 0 < 0" by simp_all
  then show ?thesis using h1 h3 by (simp add: long_move_second int_abs_ok_def)
qed

text \<open>
  The second division of \<open>long_move\<close> does not move axis 1, whose requested step
  count is negative: its direction bit 1 is clear.
\<close>

theorem direction_bit_clear_counterexample:
  "steps long_move ! 1 < 0 \<and>
   \<not> bit (direction_bits
           (enqueued world0 (snd (beagleg_enqueue exact_fpu hw200 limit_1MHz world0 long_move None)) ! 1)) 1"
proof -
  let ?cs = "calls_made world0 (snd (beagleg_enqueue exact_fpu hw200 limit_1MHz world0 long_move None))"
  have "length (map call_view ?cs) = 2" by (simp only: long_move_views) simp
  then have l: "1 < length ?cs" by simp
  have "enqueued world0 (snd (beagleg_enqueue exact_fpu hw200 limit_1MHz world0 long_move None)) ! 1
          = new_element exact_fpu hw200 limit_1MHz (fst (?cs ! Suc 0)) (snd (?cs ! Suc 0))"
    using l by (simp add: long_move_enqueued segs_of_calls_def)
  then have "\<not> bit (direction_bits (enqueued world0
      (snd (beagleg_enqueue exact_fpu hw200 limit_1MHz world0 long_move None)) ! 1)) 1"
    by (simp add: new_element_bit long_move_second)
  then show ?thesis by (simp add: long_move_def)
qed

text \<open>
  Claim C4. On the single-segment path the segment carries the \<open>aux_bits\<close> of the
  request. On the splitting path the synthesizer is called with the local \<open>output\<close>,
  whose \<open>aux_bits\<close> is never written: the segments of a split move carry an
  indeterminate value, not the \<open>aux_bits\<close> of the request.
\<close>

theorem aux_lost_when_split:
  "aux_bits long_move = Some 1 \<and>
   map aux (enqueued world0 (snd (beagleg_enqueue exact_fpu hw200 limit_1MHz world0 long_move None)))
     = [None, None] \<and>
   aux_bits short_move = Some 1 \<and>
   map aux (enqueued world0 (snd (beagleg_enqueue exact_fpu hw200 limit_1MHz world0 short_move None)))
     = [Some 1]"
proof -
  let ?cs = "calls_made world0 (snd (beagleg_enqueue exact_fpu hw200 limit_1MHz world0 long_move None))"
  have "map aux (segs_of_calls exact_fpu hw200 limit_1MHz ?cs) = map (fst \<circ> snd) (map call_view ?cs)"
    by (simp add: segs_of_calls_def new_element_aux call_view_def o_def)
  also have "\<dots> = [None, None]" by (simp only: long_move_views) simp
  finally have long: "map aux (enqueued world0
      (snd (beagleg_enqueue exact_fpu hw200 limit_1MHz world0 long_move None))) = [None, None]"
    by (simp only: long_move_enqueued)
  have g: "get_defining_axis_steps (steps short_move) = 1000"
    by (simp add: short_move_def get_defining_axis_steps_def c_abs_def s32_def)
  have "beagleg_enqueue exact_fpu hw200 limit_1MHz world0 short_move None
          = (0, extends exact_fpu hw200 limit_1MHz world0 [(short_move, 1000)])"
    using enqueue_single [of short_move exact_fpu hw200 limit_1MHz world0 None]
    by (simp add: g MAX_STEPS_eq)
  then have "map aux (enqueued world0
      (snd (beagleg_enqueue exact_fpu hw200 limit_1MHz world0 short_move None))) = [Some 1]"
    by (simp add: enqueued_extends segs_of_calls_def new_element_aux short_move_def)
  with long show ?thesis by (simp add: long_move_def short_move_def)
qed


text \<open>
  Claim C9. \<open>beagleg_enqueue\<close> fails exactly when every step count is zero, that is,
  when \<open>defining_axis_steps\<close>, the maximum of the absolute step counts, is zero. It
  then returns 1, writes one line to the stream the caller supplied (to \<open>stderr\<close> when
  the caller supplied none) and neither calls the synthesizer nor touches the queue.
  For every other request it returns 0 and writes nothing. The step counts range over
  the values of an \<open>int\<close> on which \<open>abs\<close> is defined.
\<close>

theorem zero_length_rejected:
  fixes fp :: "'f fpu" and hw limit w p es
  assumes "steps p \<noteq> []" and "\<forall>s\<in>set (steps p). int_abs_ok s"
  defines "r \<equiv> beagleg_enqueue fp hw limit w p es"
  shows "get_defining_axis_steps (steps p) = Max (abs ` set (steps p)) \<and>
         (fst r \<noteq> 0 \<longleftrightarrow> (\<forall>s\<in>set (steps p). s = 0)) \<and>
         ((\<forall>s\<in>set (steps p). s = 0) \<longrightarrow>
            fst r = 1 \<and>
            written (snd r) = written w @
              [(case es of Some s \<Rightarrow> Stream s | None \<Rightarrow> Stderr,
                ''zero steps. Ignoring command.'' @ [CHR 0x0A])] \<and>
            queue (snd r) = queue w \<and> synth_calls (snd r) = synth_calls w) \<and>
         (\<not> (\<forall>s\<in>set (steps p). s = 0) \<longrightarrow> fst r = 0 \<and> written (snd r) = written w)"
proof (cases "get_defining_axis_steps (steps p) = 0")
  case True
  then have z: "\<forall>s\<in>set (steps p). s = 0" using gdas_zero_iff [OF assms(1,2)] by simp
  from enqueue_zero [OF True, of fp hw limit w es] z show ?thesis
    unfolding r_def by (simp add: gdas_abs [OF assms(1,2)])
next
  case False
  then have nz: "\<not> (\<forall>s\<in>set (steps p). s = 0)" using gdas_zero_iff [OF assms(1,2)] by simp
  from accepted_calls [OF assms(1,2) False, of fp hw limit w es]
  obtain cs where "beagleg_enqueue fp hw limit w p es = (0, extends fp hw limit w cs)" by blast
  with nz show ?thesis unfolding r_def by (simp add: gdas_abs [OF assms(1,2)] extends_def)
qed

theorem zero_length_rejected_witness:
  "steps null_move \<noteq> [] \<and> int_abs_ok 0 \<and>
   fst (beagleg_enqueue exact_fpu hw200 limit_1MHz world0 null_move (Some 3)) = 1 \<and>
   written (snd (beagleg_enqueue exact_fpu hw200 limit_1MHz world0 null_move (Some 3)))
     = [(Stream 3, ''zero steps. Ignoring command.'' @ [CHR 0x0A])] \<and>
   queue (snd (beagleg_enqueue exact_fpu hw200 limit_1MHz world0 null_move (Some 3))) = []"
proof -
  have h1: "steps null_move \<noteq> []" by (simp add: null_move_def)
  have h2: "\<forall>s\<in>set (steps null_move). int_abs_ok s"
    by (simp add: null_move_def int_abs_ok_def)
  have z: "\<forall>s\<in>set (steps null_move). s = 0" by (simp add: null_move_def)
  from zero_length_rejected [OF h1 h2, where fp = exact_fpu and hw = hw200
      and limit = limit_1MHz and w = world0 and es = "Some 3"] z
  show ?thesis using h1 by (simp add: world0_def int_abs_ok_def)
qed

lemma last_enqueued:
  "last (queue (beagleg_enqueue_internal fp hw limit w p d)) = new_element fp hw limit p d"
  by (simp add: beagleg_enqueue_internal_def)

lemma axis_fraction_exact:
  assumes d: "0 < d" "d < 2 ^ 31" and s: "\<bar>s\<bar> \<le> d"
  shows "axis_fraction s d = \<bar>s\<bar> * 2147483647 div d"
proof -
  have ok: "int_abs_ok s" using d s by (simp add: int_abs_ok_def abs_le_iff)
  have a: "u64 (c_abs s) = \<bar>s\<bar>"
    unfolding c_abs_ok [OF ok] using d s by (intro u64_id) simp_all
  have "\<bar>s\<bar> * 2147483647 \<le> 2147483647 * 2147483647"
    using d s by (intro mult_right_mono) simp_all
  then have b: "u64 (\<bar>s\<bar> * 2147483647) = \<bar>s\<bar> * 2147483647"
    by (intro u64_id) simp_all
  have c: "u64 d = d" using d by (intro u64_id) simp_all
  have "\<bar>s\<bar> * 2147483647 \<le> d * 2147483647" using s by (intro mult_right_mono) simp_all
  then have "\<bar>s\<bar> * 2147483647 div d \<le> d * 2147483647 div d" by (intro zdiv_mono1 d)
  then have "\<bar>s\<bar> * 2147483647 div d \<le> 2147483647" using d by simp
  moreover have "0 \<le> \<bar>s\<bar> * 2147483647 div d" using d by (simp add: pos_imp_zdiv_nonneg_iff)
  ultimately have e: "u32 (\<bar>s\<bar> * 2147483647 div d) = \<bar>s\<bar> * 2147483647 div d"
    by (intro u32_id) simp_all
  show ?thesis by (simp add: axis_fraction_def Let_def a max_fraction_eq b c e)
qed

text \<open>
  Claim C3, as amended. For a call of the synthesizer with a positive
  \<open>defining_axis_steps\<close> that bounds the step count of axis \<open>i\<close>, as it does in every
  call that \<open>beagleg_enqueue\<close> makes, the segment handed to the queue has
  \<open>fractions[i] = |steps[i]| * max_fraction / defining_axis_steps\<close> in integer
  division, where \<open>max_fraction\<close> is \<open>0xFFFFFFFF / LOOPS_PER_STEP = 2147483647\<close> and
  \<open>LOOPS_PER_STEP = 2\<close>. The scale is not \<open>2^32 / LOOPS_PER_STEP\<close>.
\<close>

theorem fraction_of_axis:
  assumes "0 < d" and "d < 2 ^ 31" and "i < length (steps p)" and "\<bar>steps p ! i\<bar> \<le> d"
  shows "fractions (last (queue (beagleg_enqueue_internal fp hw limit w p d))) ! i
           = \<bar>steps p ! i\<bar> * (4294967295 div LOOPS_PER_STEP) div d \<and>
         LOOPS_PER_STEP = 2"
  using assms
  by (simp add: last_enqueued new_element_fractions axis_loop_fractions axis_fraction_exact
      LOOPS_PER_STEP_eq)

theorem fraction_of_axis_witness:
  "(0::int) < 1000 \<and> (1000::int) < 2 ^ 31 \<and> (1::nat) < length (steps short_move) \<and>
   \<bar>steps short_move ! 1\<bar> \<le> 1000 \<and>
   fractions (last (queue (beagleg_enqueue_internal exact_fpu hw200 limit_1MHz world0 short_move 1000))) ! 1
     = 1073741823"
proof -
  have h3: "1 < length (steps short_move)" by (simp add: short_move_def)
  have h4: "\<bar>steps short_move ! 1\<bar> \<le> 1000" by (simp add: short_move_def)
  from fraction_of_axis [OF _ _ h3 h4, of exact_fpu hw200 limit_1MHz world0]
  show ?thesis using h3 h4 by (simp add: short_move_def LOOPS_PER_STEP_eq)
qed

text \<open>
  For a single step on the defining axis the fraction is \<open>2147483647\<close>, not
  \<open>2^32 / LOOPS_PER_STEP = 2147483648\<close>.
\<close>

theorem fraction_scale_counterexample:
  "fractions (last (queue (beagleg_enqueue_internal exact_fpu hw200 limit_1MHz world0 unit_move 1))) ! 0
     \<noteq> \<bar>steps unit_move ! 0\<bar> * (2 ^ 32 div LOOPS_PER_STEP) div 1"
  by (simp add: last_enqueued new_element_fractions axis_loop_fractions axis_fraction_exact
      LOOPS_PER_STEP_eq unit_move_def)


lemma total_loops_exact:
  "0 < d \<Longrightarrow> d \<le> MAX_STEPS_PER_SEGMENT \<Longrightarrow> s32 (LOOPS_PER_STEP * d) = LOOPS_PER_STEP * d"
  by (rule s32_id) (simp_all add: LOOPS_PER_STEP_eq MAX_STEPS_eq)

lemma new_element_loops:
  "(loops_accel (new_element fp hw limit p d), loops_travel (new_element fp hw limit p d),
    loops_decel (new_element fp hw limit p d))
   = (if f_eq fp (v0 p) (v1 p) then (0, s32 (LOOPS_PER_STEP * d), 0)
      else if f_lt fp (v0 p) (v1 p) then (s32 (LOOPS_PER_STEP * d), 0, 0)
      else (0, 0, s32 (LOOPS_PER_STEP * d)))"
  by (simp add: new_element_def Let_def split: prod.splits)


text \<open>
  Claim C5. A segment that the synthesizer produces from a call that meets its
  precondition (\<open>defining_axis_steps\<close> positive and at most
  \<open>MAX_STEPS_PER_SEGMENT\<close>, as in every call that \<open>beagleg_enqueue\<close> makes) is marked
  filled and has exactly one non-zero loop count: the count of the phase chosen by
  comparing \<open>v0\<close> and \<open>v1\<close> is \<open>LOOPS_PER_STEP * defining_axis_steps\<close>, the other two
  are zero.
\<close>

theorem one_phase_per_segment:
  fixes fp :: "'f fpu" and hw limit w p d
  defines "seg \<equiv> last (queue (beagleg_enqueue_internal fp hw limit w p d))"
  assumes "0 < d" and "d \<le> MAX_STEPS_PER_SEGMENT"
  shows "state seg = STATE_FILLED \<and>
         length (filter (\<lambda>n. n \<noteq> 0) [loops_accel seg, loops_travel seg, loops_decel seg]) = 1 \<and>
         (if f_eq fp (v0 p) (v1 p) then
            loops_travel seg = LOOPS_PER_STEP * d \<and> loops_accel seg = 0 \<and> loops_decel seg = 0
          else if f_lt fp (v0 p) (v1 p) then
            loops_accel seg = LOOPS_PER_STEP * d \<and> loops_travel seg = 0 \<and> loops_decel seg = 0
          else
            loops_decel seg = LOOPS_PER_STEP * d \<and> loops_travel seg = 0 \<and> loops_accel seg = 0)"
proof -
  have nz: "LOOPS_PER_STEP * d \<noteq> 0" using assms(2) by (simp add: LOOPS_PER_STEP_eq)
  have seg: "seg = new_element fp hw limit p d" by (simp add: seg_def last_enqueued)
  from new_element_loops [of fp hw limit p d]
  have "(loops_accel seg, loops_travel seg, loops_decel seg)
          = (if f_eq fp (v0 p) (v1 p) then (0, LOOPS_PER_STEP * d, 0)
             else if f_lt fp (v0 p) (v1 p) then (LOOPS_PER_STEP * d, 0, 0)
             else (0, 0, LOOPS_PER_STEP * d))"
    by (simp only: seg total_loops_exact [OF assms(2,3)])
  with nz show ?thesis by (simp add: seg new_element_state split: if_splits)
qed

theorem one_phase_per_segment_witness:
  "(0::int) < 1000 \<and> 1000 \<le> MAX_STEPS_PER_SEGMENT \<and>
   state (last (queue (beagleg_enqueue_internal exact_fpu hw200 limit_1MHz world0 short_move 1000)))
     = STATE_FILLED \<and>
   loops_travel (last (queue (beagleg_enqueue_internal exact_fpu hw200 limit_1MHz world0 short_move 1000)))
     = 2000 \<and>
   loops_accel (last (queue (beagleg_enqueue_internal exact_fpu hw200 limit_1MHz world0 short_move 1000)))
     = 0 \<and>
   loops_decel (last (queue (beagleg_enqueue_internal exact_fpu hw200 limit_1MHz world0 short_move 1000)))
     = 0"
proof -
  have h2: "1000 \<le> MAX_STEPS_PER_SEGMENT" by (simp add: MAX_STEPS_eq)
  have e: "f_eq exact_fpu (v0 short_move) (v1 short_move)"
    by (simp add: exact_fpu_def short_move_def)
  from one_phase_per_segment [OF _ h2, of exact_fpu hw200 limit_1MHz world0 short_move] e
  show ?thesis using h2 by (simp add: LOOPS_PER_STEP_eq)
qed

text \<open>
  Claim C10, as amended. The divisor \<open>LOOPS_PER_STEP * clip(v0)\<close> of the travel delay
  is non-zero for every request whose speed \<open>v0\<close> is non-zero, on a floating-point unit
  where doubling a non-zero value does not give zero and the frequency limit is not
  zero. The code has no guard for speed zero: a request with \<open>v0 == v1 == 0\<close> and a
  non-zero step vector passes the zero-length check and reaches the division with the
  divisor zero.
\<close>

theorem travel_divisor_nonzero:
  assumes "\<forall>x. f_eq fp (f_mul fp (f_of_int fp LOOPS_PER_STEP) x) (f_of_int fp 0)
               \<longrightarrow> f_eq fp x (f_of_int fp 0)"
    and "\<not> f_eq fp limit (f_of_int fp 0)"
    and "\<not> f_eq fp (v0 p) (f_of_int fp 0)"
  shows "\<not> f_eq fp (travel_divisor fp limit (v0 p)) (f_of_int fp 0)"
  using assms by (auto simp: travel_divisor_def clip_hardware_frequency_limit_def)

theorem travel_divisor_nonzero_witness:
  "\<not> f_eq exact_fpu limit_1MHz (f_of_int exact_fpu 0) \<and>
   \<not> f_eq exact_fpu (v0 short_move) (f_of_int exact_fpu 0) \<and>
   \<not> f_eq exact_fpu (travel_divisor exact_fpu limit_1MHz (v0 short_move)) (f_of_int exact_fpu 0)"
proof -
  have h1: "\<forall>x. f_eq exact_fpu (f_mul exact_fpu (f_of_int exact_fpu LOOPS_PER_STEP) x)
                  (f_of_int exact_fpu 0) \<longrightarrow> f_eq exact_fpu x (f_of_int exact_fpu 0)"
    by (simp add: exact_fpu_def LOOPS_PER_STEP_eq)
  have h2: "\<not> f_eq exact_fpu limit_1MHz (f_of_int exact_fpu 0)"
    by (simp add: exact_fpu_def limit_1MHz_def beagleg_init_motor_ops_def)
  have h3: "\<not> f_eq exact_fpu (v0 short_move) (f_of_int exact_fpu 0)"
    by (simp add: exact_fpu_def short_move_def)
  from travel_divisor_nonzero [OF h1 h2 h3] h2 h3 show ?thesis by simp
qed

text \<open>
  The request \<open>stalled_move\<close> has one step and \<open>v0 == v1 == 0\<close>: it is accepted,
  it takes the travel branch, and the divisor is zero. The comparison \<open>0 < 1000000\<close>
  and the product \<open>2 * 0\<close> evaluated here are exact in binary floating point as
  well.
\<close>

theorem zero_speed_divisor_counterexample:
  "fst (beagleg_enqueue exact_fpu hw200 limit_1MHz world0 stalled_move None) = 0 \<and>
   f_eq exact_fpu (v0 stalled_move) (v1 stalled_move) \<and>
   travel_divisor exact_fpu limit_1MHz (v0 stalled_move) = 0"
proof -
  have g: "get_defining_axis_steps (steps stalled_move) = 1"
    by (simp add: stalled_move_def get_defining_axis_steps_def c_abs_def s32_def)
  have "fst (beagleg_enqueue exact_fpu hw200 limit_1MHz world0 stalled_move None) = 0"
    using enqueue_single [of stalled_move exact_fpu hw200 limit_1MHz world0 None]
    by (simp add: g MAX_STEPS_eq)
  moreover have "travel_divisor exact_fpu limit_1MHz (v0 stalled_move) = 0"
    by (simp add: travel_divisor_def clip_hardware_frequency_limit_def limit_1MHz_def
        beagleg_init_motor_ops_def exact_fpu_def stalled_move_def)
  ultimately show ?thesis by (simp add: exact_fpu_def stalled_move_def)
qed



text \<open>
  The segment that the synthesizer makes of the last division of \<open>stop_move\<close> is the
  one it would make of an exit speed of exactly zero: the residue is lost when the
  acceleration is computed in \<open>float\<close>.
\<close>

lemma stop_residue_inert:
  "new_element ieee_fpu timer_200MHz (beagleg_init_motor_ops ieee_fpu)
     \<lparr>v0 = 5792619 / 16384, v1 = 1 / 262144, aux_bits = None, steps = [16384]\<rparr> 16384
   = new_element ieee_fpu timer_200MHz (beagleg_init_motor_ops ieee_fpu)
       \<lparr>v0 = 5792619 / 16384, v1 = 0, aux_bits = None, steps = [16384]\<rparr> 16384"
  by code_simp







end
